theory Spec2Isabelle
  imports Complex_Main "HOL-Library.Sublist" "HOL-Library.Log_Nat"
begin

section \<open>Python values and built-ins used by \<open>cathi_score.py\<close>\<close>

text \<open>
  Strings are \<open>string\<close> (character lists). The implicit exceptions the source can raise
  are values: \<open>IndexError\<close> for a list index out of range (\<open>tt_pos[0]\<close>),
  \<open>AttributeError\<close> for \<open>.start()\<close> on a failed \<open>re.search\<close>,
  \<open>ZeroDivisionError\<close> for the division by \<open>step\<close>, and \<open>OverflowError\<close> for a
  quotient of integers too large for a float.
\<close>

datatype error = IndexError | AttributeError | ZeroDivisionError | OverflowError

text \<open>\<open>s.startswith(p)\<close>; the regex engine's test for a literal at the current position.\<close>

definition startswith :: "string \<Rightarrow> string \<Rightarrow> bool" where
  "startswith s p = (take (length p) s = p)"

text \<open>\<open>s[a:b]\<close> for offsets \<open>0 \<le> a\<close>, \<open>0 \<le> b\<close> (match spans).\<close>

definition slice :: "string \<Rightarrow> nat \<Rightarrow> nat \<Rightarrow> string" where
  "slice s a b = take (b - a) (drop a s)"

text \<open>
  \<open>s[i:j]\<close> for arbitrary Python integers: a negative bound counts from the end, and
  both bounds are clamped to \<open>[0, len(s)]\<close>.
\<close>

definition py_bound :: "int \<Rightarrow> int \<Rightarrow> int" where
  "py_bound n k = (if k < 0 then max 0 (k + n) else min k n)"

definition py_slice :: "string \<Rightarrow> int \<Rightarrow> int \<Rightarrow> string" where
  "py_slice s i j =
     (let n = int (length s); a = py_bound n i; b = py_bound n j
      in take (nat (b - a)) (drop (nat a) s))"

text \<open>
  \<open>s[i]\<close> for a Python integer \<open>i\<close>: a negative index counts from the end; out of
  range raises \<open>IndexError\<close>.
\<close>

definition py_index :: "string \<Rightarrow> int \<Rightarrow> error + char" where
  "py_index s i =
     (let k = (if i < 0 then i + int (length s) else i)
      in if 0 \<le> k \<and> k < int (length s) then Inr (s ! nat k) else Inl IndexError)"

text \<open>
  \<open>range(start, stop, step)\<close> as the list of its elements, for \<open>step \<noteq> 0\<close>
  (both callers divide by \<open>step\<close> first, so \<open>step = 0\<close> has already raised).
\<close>

definition py_range :: "int \<Rightarrow> int \<Rightarrow> int \<Rightarrow> int list" where
  "py_range start stop step =
     (if 0 < step then
        map (\<lambda>k. start + int k * step) [0..<nat ((stop - start + step - 1) div step)]
      else if step < 0 then
        map (\<lambda>k. start + int k * step) [0..<nat ((start - stop - step - 1) div (- step))]
      else [])"

text \<open>
  \<open>round(x)\<close> with one argument, on a float: the nearest integer, a tie going to the
  even one. \<open>math.ceil\<close> of a float is HOL's \<open>ceiling\<close>. Both are exact.
\<close>

definition py_round :: "real \<Rightarrow> int" where
  "py_round x =
     (let f = \<lfloor>x\<rfloor>; d = x - of_int f
      in if d < 1 / 2 then f
         else if 1 / 2 < d then f + 1
         else if even f then f else f + 1)"

subsection \<open>Floats of the window count\<close>

text \<open>
  A Python float is an IEEE binary64 number; a finite one is modelled by the real number
  it denotes. \<open>b64_exponent x\<close> is the binary exponent of \<open>x \<noteq> 0\<close>, the integer \<open>e\<close>
  with \<open>2^e \<le> |x| < 2^(e+1)\<close>. \<open>b64_round\<close> rounds a real to the nearest binary64
  number, a tie going to the even significand: the spacing of the binary64 numbers
  around \<open>x\<close> is \<open>2^(e-52)\<close>, with \<open>e\<close> not below \<open>-1022\<close> (the subnormal range).
\<close>

definition b64_exponent :: "real \<Rightarrow> int" where
  "b64_exponent x =
     (let m = \<bar>x\<bar>
      in if 1 \<le> m then bitlen \<lfloor>m\<rfloor> - 1
         else - bitlen (\<lceil>1 / m\<rceil> - 1))"

definition b64_round :: "real \<Rightarrow> real" where
  "b64_round x =
     (if x = 0 then 0
      else (let u = power_int 2 (max (b64_exponent x) (- 1022) - 52)
            in of_int (py_round (x / u)) * u))"

text \<open>
  \<open>a / b\<close> on two Python integers: the exact quotient, correctly rounded to a float;
  \<open>ZeroDivisionError\<close> when \<open>b\<close> is 0, \<open>OverflowError\<close> when the rounded quotient is
  beyond the largest float.
\<close>

definition py_int_truediv :: "int \<Rightarrow> int \<Rightarrow> error + real" where
  "py_int_truediv a b =
     (if b = 0 then Inl ZeroDivisionError
      else (let q = b64_round (real_of_int a / real_of_int b)
            in if 2 ^ 1024 \<le> \<bar>q\<bar> then Inl OverflowError else Inr q))"

text \<open>
  \<open>x + y\<close> on two floats: the exact sum, rounded. (The window count adds 1 to a
  finite quotient, which cannot reach infinity.)
\<close>

definition py_float_add :: "real \<Rightarrow> real \<Rightarrow> real" where
  "py_float_add x y = b64_round (x + y)"

section \<open>Regular expressions\<close>

text \<open>
  A pattern is modelled by its anchored matcher: given the text from the current
  position on, it returns the length of the match the backtracking engine finds there
  (greedy quantifiers take as much as they can), or \<open>None\<close>. None of the patterns of
  the program looks behind the current position, and none matches the empty string.
\<close>

type_synonym matcher = "string \<Rightarrow> nat option"

text \<open>\<open>re.search\<close>: the span \<open>(start, end)\<close> of the match at the leftmost position
  where the pattern matches.\<close>

fun re_search :: "matcher \<Rightarrow> string \<Rightarrow> (nat \<times> nat) option" where
  "re_search m [] = map_option (\<lambda>n. (0, n)) (m [])"
| "re_search m (x # xs) =
     (case m (x # xs) of
        Some n \<Rightarrow> Some (0, n)
      | None \<Rightarrow> map_option (\<lambda>(a, b). (Suc a, Suc b)) (re_search m xs))"

text \<open>
  \<open>re.finditer\<close>: the spans of the successive non-overlapping matches, each search
  starting where the previous match ended. (A match of length 0, which no pattern of
  the program produces, ends the iteration here.)
\<close>

function re_finditer :: "matcher \<Rightarrow> string \<Rightarrow> (nat \<times> nat) list" where
  "re_finditer m s =
     (case re_search m s of
        None \<Rightarrow> []
      | Some (a, b) \<Rightarrow>
          if 0 < b \<and> b \<le> length s
          then (a, b) # map (\<lambda>(a', b'). (b + a', b + b')) (re_finditer m (drop b s))
          else [(a, b)])"
  by pat_completeness auto
termination
  by (relation "measure (\<lambda>(m, s). length s)") auto

declare re_finditer.simps [simp del]

text \<open>\<open>re.findall(..., overlapped=True)\<close> of the \<open>regex\<close> module: after a match at
  position \<open>i\<close> the next search starts at \<open>i + 1\<close>; the result lists the matched
  texts.\<close>

fun re_findall_overlapped :: "matcher \<Rightarrow> string \<Rightarrow> string list" where
  "re_findall_overlapped m [] = (case m [] of Some n \<Rightarrow> [[]] | None \<Rightarrow> [])"
| "re_findall_overlapped m (x # xs) =
     (case m (x # xs) of
        Some n \<Rightarrow> take n (x # xs) # re_findall_overlapped m xs
      | None \<Rightarrow> re_findall_overlapped m xs)"

text \<open>A pattern without metacharacters (\<open>TT\<close>, \<open>GGTGG\<close>, a candidate text) matches
  itself.\<close>

definition re_literal :: "string \<Rightarrow> matcher" where
  "re_literal p s = (if startswith s p then Some (length p) else None)"

text \<open>\<open>GGGG+\<close>: three \<open>G\<close>, then one or more \<open>G\<close>, as many as there are.\<close>

definition re_GGGG_plus :: matcher where
  "re_GGGG_plus s =
     (if startswith s ''GGG''
      then (let n = length (takeWhile (\<lambda>c. c = CHR ''G'') (drop 3 s))
            in if 1 \<le> n then Some (3 + n) else None)
      else None)"

text \<open>\<open>(?:GGT){2,}\<close> takes every leading repetition of \<open>GGT\<close>.\<close>

fun count_GGT :: "string \<Rightarrow> nat" where
  "count_GGT (a # b # c # rest) =
     (if a = CHR ''G'' \<and> b = CHR ''G'' \<and> c = CHR ''T'' then Suc (count_GGT rest) else 0)"
| "count_GGT _ = 0"

text \<open>\<open>((?:GGT){2,}G?)\<close>: two or more \<open>GGT\<close>, then a \<open>G\<close> when one follows. The
  optional \<open>G\<close> never fails, so the engine does not backtrack into the repetition.\<close>

definition re_GGT_rep :: matcher where
  "re_GGT_rep s =
     (let n = count_GGT s
      in if 2 \<le> n
         then Some (3 * n + (if startswith (drop (3 * n) s) ''G'' then 1 else 0))
         else None)"

text \<open>\<open>$\<close> matches at the end of the string and just before a newline that ends the
  string.\<close>

definition at_dollar :: "string \<Rightarrow> bool" where
  "at_dollar r = (r = [] \<or> r = [CHR 0x0A])"

text \<open>\<open>GTGGTGGT?$\<close>: the literal \<open>GTGGTGG\<close>, then an optional \<open>T\<close> (tried first with
  the \<open>T\<close>, then without), then \<open>$\<close>.\<close>

definition re_GTGGTGG_T_end :: matcher where
  "re_GTGGTGG_T_end s =
     (if startswith s ''GTGGTGG''
      then (let r = drop 7 s
            in if startswith r ''T'' \<and> at_dollar (drop 1 r) then Some 8
               else if at_dollar r then Some 7
               else None)
      else None)"

text \<open>\<open>(G[GT]{3,})\<close>: a \<open>G\<close>, then three or more of \<open>G\<close>/\<open>T\<close>, as many as there
  are.\<close>

definition re_G_GT3 :: matcher where
  "re_G_GT3 s =
     (if startswith s ''G''
      then (let n = length (takeWhile (\<lambda>c. c = CHR ''G'' \<or> c = CHR ''T'') (drop 1 s))
            in if 3 \<le> n then Some (1 + n) else None)
      else None)"

section \<open>Pattern classifier\<close>

text \<open>\<open>contains_gt4_gs\<close>: \<open>re.search(r"GGGG+", seq)\<close> finds a match.\<close>

definition contains_gt4_gs :: "string \<Rightarrow> bool" where
  "contains_gt4_gs seq =
     (let match = re_search re_GGGG_plus seq
      in if match \<noteq> None then True else False)"

text \<open>\<open>all_ggtgg\<close>: \<open>re.match\<close> is the anchored matcher at position 0;
  \<open>match.group(1)\<close> is the text of the span.\<close>

definition all_ggtgg :: "string \<Rightarrow> bool" where
  "all_ggtgg seq =
     (let match = re_search re_GGT_rep seq
      in if seq = ''GGTGG'' \<or> re_GTGGTGG_T_end seq \<noteq> None then True
         else (case match of
                 Some (a, b) \<Rightarrow> (if slice seq a b = seq then True else False)
               | None \<Rightarrow> False))"

section \<open>Facts about searching\<close>

lemma re_search_SomeD:
  "re_search m s = Some (a, b) \<Longrightarrow>
     a \<le> length s \<and> a \<le> b \<and> m (drop a s) = Some (b - a) \<and> (\<forall>i<a. m (drop i s) = None)"
proof (induction s arbitrary: a b)
  case Nil
  then show ?case by auto
next
  case (Cons x xs)
  show ?case
  proof (cases "m (x # xs)")
    case (Some n)
    with Cons.prems show ?thesis by auto
  next
    case None
    with Cons.prems obtain a' b' where r: "re_search m xs = Some (a', b')" and ab: "a = Suc a'" "b = Suc b'"
      by auto
    from Cons.IH[OF r] have ih: "a' \<le> length xs" "a' \<le> b'" "m (drop a' xs) = Some (b' - a')"
      "\<forall>i<a'. m (drop i xs) = None" by auto
    have "\<forall>i<a. m (drop i (x # xs)) = None"
    proof (intro allI impI)
      fix i assume "i < a"
      show "m (drop i (x # xs)) = None"
      proof (cases i)
        case 0 then show ?thesis using None by simp
      next
        case (Suc j)
        with \<open>i < a\<close> ab have "j < a'" by simp
        with ih(4) Suc show ?thesis by simp
      qed
    qed
    with ih ab show ?thesis by simp
  qed
qed

lemma re_search_None_iff:
  "re_search m s = None \<longleftrightarrow> (\<forall>i\<le>length s. m (drop i s) = None)"
proof (induction s)
  case Nil
  then show ?case by simp
next
  case (Cons x xs)
  have "(\<forall>i\<le>length (x # xs). m (drop i (x # xs)) = None) \<longleftrightarrow>
        m (x # xs) = None \<and> (\<forall>i\<le>length xs. m (drop i xs) = None)"
    (is "?L \<longleftrightarrow> ?R")
  proof
    assume l: ?L
    have "m (x # xs) = None" using l[rule_format, of 0] by simp
    moreover have "\<forall>i\<le>length xs. m (drop i xs) = None"
      using l[rule_format, of "Suc i" for i] by simp
    ultimately show ?R by simp
  next
    assume r: ?R
    show ?L
    proof (intro allI impI)
      fix i assume "i \<le> length (x # xs)"
      then show "m (drop i (x # xs)) = None" using r by (cases i) auto
    qed
  qed
  with Cons.IH show ?case by (auto split: option.splits)
qed

lemma re_search_first:
  "m (drop a s) = Some n \<Longrightarrow> a \<le> length s \<Longrightarrow> \<forall>i<a. m (drop i s) = None \<Longrightarrow>
   re_search m s = Some (a, a + n)"
proof (induction s arbitrary: a)
  case Nil
  then show ?case by simp
next
  case (Cons x xs)
  show ?case
  proof (cases a)
    case 0
    with Cons.prems show ?thesis by simp
  next
    case (Suc a')
    have n0: "m (x # xs) = None" using Cons.prems(3)[rule_format, of 0] Suc by simp
    have "\<forall>i<a'. m (drop i xs) = None"
      using Cons.prems(3)[rule_format, of "Suc i" for i] Suc by simp
    with Cons.IH[of a'] Cons.prems Suc have "re_search m xs = Some (a', a' + n)" by simp
    with n0 Suc show ?thesis by simp
  qed
qed

lemma re_finditer_Nil_iff: "re_finditer m s = [] \<longleftrightarrow> re_search m s = None"
  by (subst re_finditer.simps) (auto split: option.splits)

lemma re_finditer_ConsD: "re_finditer m s = ab # rest \<Longrightarrow> re_search m s = Some ab"
  by (subst (asm) re_finditer.simps) (auto split: option.splits if_splits)


lemma re_literal_Some_iff: "re_literal p s = Some n \<longleftrightarrow> startswith s p \<and> n = length p"
  by (auto simp: re_literal_def)

lemma startswith_length: "startswith s p \<Longrightarrow> length p \<le> length s"
  unfolding startswith_def by (metis length_take min.cobounded1)

lemma startswith_iff: "startswith s p \<longleftrightarrow> (\<exists>r. s = p @ r)"
  unfolding startswith_def by (metis append_eq_conv_conj append_take_drop_id)

lemma tt_pos_ConsD:
  assumes "map fst (re_finditer (re_literal ''TT'') c) = p # ps"
  shows "p + 2 \<le> length c \<and> startswith (drop p c) ''TT''
         \<and> (\<forall>i<p. \<not> startswith (drop i c) ''TT'')"
proof -
  from assms obtain b rest where "re_finditer (re_literal ''TT'') c = (p, b) # rest"
    by auto
  then have "re_search (re_literal ''TT'') c = Some (p, b)"
    by (rule re_finditer_ConsD)
  from re_search_SomeD[OF this]
  have m: "re_literal ''TT'' (drop p c) = Some (b - p)"
    and n: "\<forall>i<p. re_literal ''TT'' (drop i c) = None" by auto
  from m have sw: "startswith (drop p c) ''TT''" by (simp add: re_literal_Some_iff)
  from startswith_length[OF sw] have "p + 2 \<le> length c" by simp
  moreover from n have "\<forall>i<p. \<not> startswith (drop i c) ''TT''"
    by (auto simp: re_literal_def split: if_splits)
  ultimately show ?thesis using sw by simp
qed

section \<open>Candidate splitter\<close>

text \<open>
  \<open>test_candidate\<close>. \<open>tt_pos\<close> is the list of the start offsets of the matches of
  \<open>TT\<close>; \<open>c[0]\<close> is read only when \<open>len(c) >= 4\<close>; \<open>tt_pos[0]\<close> raises
  \<open>IndexError\<close> on an empty list. The result list of a call is the concatenation of
  what its recursive calls return.
\<close>

function test_candidate :: "string \<Rightarrow> error + string list" where
  "test_candidate c =
     (let tt_pos = map fst (re_finditer (re_literal ''TT'') c)
      in if length tt_pos = 0 \<and> 4 \<le> length c \<and> c ! 0 \<noteq> CHR ''T'' then
           (if \<not> all_ggtgg c then Inr [c] else Inr [])
         else if length tt_pos = 0 \<and> 4 \<le> length c \<and> c ! 0 = CHR ''T'' then
           test_candidate (drop 1 c)
         else if 4 < length c then
           (case tt_pos of
              [] \<Rightarrow> Inl IndexError
            | p # _ \<Rightarrow>
                (case test_candidate (take (p + 1) c) of
                   Inl e \<Rightarrow> Inl e
                 | Inr left \<Rightarrow>
                     (case test_candidate (drop (p + 1) c) of
                        Inl e \<Rightarrow> Inl e
                      | Inr right \<Rightarrow> Inr (left @ right))))
         else Inr [])"
  by pat_completeness auto
termination
  apply (relation "measure length")
  subgoal by simp
  subgoal by auto
  subgoal for c tt_pos p ps using tt_pos_ConsD[of c p ps] by simp
  subgoal for c tt_pos p ps using tt_pos_ConsD[of c p ps] by simp
  done

declare test_candidate.simps [simp del]


section \<open>Motif extractor\<close>

text \<open>
  The inner loop of \<open>find_tg_kmers\<close> over the candidates \<open>ks\<close> of one match with span
  \<open>(a, b)\<close>: \<open>kmers\<close> and \<open>pos\<close> are the two result lists, appended to in step. The
  candidate \<open>k\<close> is the pattern of \<open>re.search(k, ...)\<close>; it is cut from a match of
  \<open>G[GT]{3,}\<close>, so it is made of \<open>G\<close> and \<open>T\<close> only and is a literal pattern.
  \<open>.start()\<close> on a failed search raises \<open>AttributeError\<close>.
\<close>

fun record_kmers ::
  "string \<Rightarrow> nat \<times> nat \<Rightarrow> string list \<Rightarrow> string list \<times> (nat \<times> nat) list
     \<Rightarrow> error + string list \<times> (nat \<times> nat) list" where
  "record_kmers seq (a, b) [] (kmers, pos) = Inr (kmers, pos)"
| "record_kmers seq (a, b) (k # ks) (kmers, pos) =
     (if k \<noteq> [] then
        (if b - a = length k then
           record_kmers seq (a, b) ks (kmers @ [k], pos @ [(a, b)])
         else
           (case re_search (re_literal k) (slice seq a b) of
              None \<Rightarrow> Inl AttributeError
            | Some (offset, _) \<Rightarrow>
                (let new_start = a + offset
                 in record_kmers seq (a, b) ks
                      (kmers @ [k], pos @ [(new_start, new_start + length k)]))))
      else record_kmers seq (a, b) ks (kmers, pos))"

text \<open>The outer loop over the matches of \<open>(G[GT]{3,})\<close>.\<close>

fun scan_matches ::
  "string \<Rightarrow> (nat \<times> nat) list \<Rightarrow> string list \<times> (nat \<times> nat) list
     \<Rightarrow> error + string list \<times> (nat \<times> nat) list" where
  "scan_matches seq [] st = Inr st"
| "scan_matches seq ((a, b) # ms) st =
     (if \<not> contains_gt4_gs (slice seq a b) \<and> \<not> all_ggtgg (slice seq a b) then
        (case test_candidate (slice seq a b) of
           Inl e \<Rightarrow> Inl e
         | Inr ks \<Rightarrow>
             (case record_kmers seq (a, b) ks st of
                Inl e \<Rightarrow> Inl e
              | Inr st' \<Rightarrow> scan_matches seq ms st'))
      else scan_matches seq ms st)"

definition find_tg_kmers :: "string \<Rightarrow> error + string list \<times> (nat \<times> nat) list" where
  "find_tg_kmers seq = scan_matches seq (re_finditer re_G_GT3 seq) ([], [])"

section \<open>Scorer\<close>

definition score_groups :: "string list \<Rightarrow> nat" where
  "score_groups seq_groups = sum_list (map length seq_groups)"

text \<open>
  \<open>calculate_penalty\<close>. Penalties are Python floats, modelled by \<open>real\<close>. The first
  loop adds \<open>len(ggtgg) * p\<close> for each candidate, the second adds \<open>tp\<close> for each
  position whose \<open>end\<close> is inside \<open>seq\<close> with \<open>T\<close> at \<open>end\<close> and at
  \<open>end - 1\<close>. Positions are offsets into the window (naturals); with
  \<open>0 \<le> end < len(seq)\<close> both reads are in range (at \<open>end = 0\<close>, \<open>seq[-1]\<close> is
  the last character).
\<close>

definition flanking_tt :: "string \<Rightarrow> nat \<times> nat \<Rightarrow> bool" where
  "flanking_tt seq se =
     (case se of (start, stop) \<Rightarrow>
        if stop < length seq
        then py_index seq (int stop) = Inr CHR ''T'' \<and> py_index seq (int stop - 1) = Inr CHR ''T''
        else False)"

definition calculate_penalty ::
  "string list \<Rightarrow> real \<Rightarrow> real \<Rightarrow> (nat \<times> nat) list \<Rightarrow> string \<Rightarrow> real" where
  "calculate_penalty seq_groups p tp pos seq =
     (let penalty_sum = foldl (\<lambda>acc g.
            acc + real (length (re_findall_overlapped (re_literal ''GGTGG'') g)) * p)
          0 seq_groups
      in foldl (\<lambda>acc se. if flanking_tt seq se then acc + tp else acc) penalty_sum pos)"

text \<open>The score of one window, as both window loops compute it:
  \<open>groups, pos = find_tg_kmers(w)\<close>, then
  \<open>score_groups(groups) - calculate_penalty(groups, penalty, tt_penalty, pos, w)\<close>.\<close>

definition window_score :: "string \<Rightarrow> real \<Rightarrow> real \<Rightarrow> error + real" where
  "window_score w penalty tt_penalty =
     (case find_tg_kmers w of
        Inl e \<Rightarrow> Inl e
      | Inr (groups, pos) \<Rightarrow>
          Inr (real (score_groups groups) - calculate_penalty groups penalty tt_penalty pos w))"

section \<open>Window aggregator\<close>

text \<open>
  \<open>calc_max_score_over_windows\<close>. \<open>max_score\<close> starts as NaN, modelled by \<open>None\<close>;
  the loop runs over \<open>range(0, num_windows*step, step)\<close>, where \<open>num_windows\<close> is
  \<open>round(((len(seq)-window)/step)+1)\<close>: a division of integers, then a float sum.
\<close>

fun max_loop ::
  "string \<Rightarrow> real \<Rightarrow> real \<Rightarrow> int \<Rightarrow> int list \<Rightarrow> real option \<Rightarrow> error + real option" where
  "max_loop seq penalty tt_penalty window [] max_score = Inr max_score"
| "max_loop seq penalty tt_penalty window (i # is) max_score =
     (case window_score (py_slice seq i (i + window)) penalty tt_penalty of
        Inl e \<Rightarrow> Inl e
      | Inr score \<Rightarrow>
          max_loop seq penalty tt_penalty window is
            (case max_score of
               None \<Rightarrow> Some score
             | Some m \<Rightarrow> if m < score then Some score else Some m))"

definition calc_max_score_over_windows ::
  "string \<Rightarrow> real \<Rightarrow> real \<Rightarrow> int \<Rightarrow> int \<Rightarrow> error + real option" where
  "calc_max_score_over_windows seq penalty tt_penalty window step =
     (case py_int_truediv (int (length seq) - window) step of
        Inl e \<Rightarrow> Inl e
      | Inr q \<Rightarrow>
          (let num_windows = py_round (py_float_add q 1)
           in max_loop seq penalty tt_penalty window (py_range 0 (num_windows * step) step) None))"

text \<open>\<open>calc_score_over_windows\<close>: one row \<open>[chrom, start, end, score]\<close> per window;
  \<open>num_windows\<close> is \<open>math.ceil(((len(seq)-window)/step)+1)\<close>.\<close>

record scored_window =
  chrom :: string
  win_start :: int
  win_end :: int
  score :: real

fun signal_loop ::
  "string \<Rightarrow> string \<Rightarrow> int \<Rightarrow> real \<Rightarrow> real \<Rightarrow> int \<Rightarrow> string \<Rightarrow> int list
     \<Rightarrow> scored_window list \<Rightarrow> error + scored_window list" where
  "signal_loop seq chr start penalty tt_penalty window strand [] scores = Inr scores"
| "signal_loop seq chr start penalty tt_penalty window strand (i # is) scores =
     (let seq_len = int (length (py_slice seq i (i + window)))
      in case window_score (py_slice seq i (i + window)) penalty tt_penalty of
           Inl e \<Rightarrow> Inl e
         | Inr sc \<Rightarrow>
             (if strand = ''+'' then
                signal_loop seq chr start penalty tt_penalty window strand is
                  (scores @ [\<lparr>chrom = chr, win_start = start + i,
                              win_end = start + i + seq_len, score = sc\<rparr>])
              else
                signal_loop seq chr start penalty tt_penalty window strand is
                  (scores @ [\<lparr>chrom = chr, win_start = start - i - seq_len,
                              win_end = start - i, score = sc\<rparr>])))"

definition calc_score_over_windows ::
  "string \<Rightarrow> string \<Rightarrow> int \<Rightarrow> real \<Rightarrow> real \<Rightarrow> int \<Rightarrow> int \<Rightarrow> string
     \<Rightarrow> error + scored_window list" where
  "calc_score_over_windows seq chr start penalty tt_penalty window step strand =
     (case py_int_truediv (int (length seq) - window) step of
        Inl e \<Rightarrow> Inl e
      | Inr q \<Rightarrow>
          (let num_windows = \<lceil>py_float_add q 1\<rceil>
           in signal_loop seq chr start penalty tt_penalty window strand
                (py_range 0 (num_windows * step) step) []))"

text \<open>The acceptance conditions of a candidate text.\<close>

definition candidate_ok :: "string \<Rightarrow> bool" where
  "candidate_ok k \<longleftrightarrow>
     \<not> sublist ''TT'' k \<and> 4 \<le> length k \<and> \<not> startswith k ''T'' \<and> \<not> all_ggtgg k"

section \<open>Properties of the candidate splitter\<close>

lemma sublist_iff_startswith:
  "sublist p s \<longleftrightarrow> (\<exists>i\<le>length s. startswith (drop i s) p)"
proof
  assume "sublist p s"
  then obtain ps ss where "s = ps @ p @ ss" by (auto simp: sublist_def)
  then have "length ps \<le> length s" "startswith (drop (length ps) s) p"
    by (auto simp: startswith_def)
  then show "\<exists>i\<le>length s. startswith (drop i s) p" by blast
next
  assume "\<exists>i\<le>length s. startswith (drop i s) p"
  then obtain i where "startswith (drop i s) p" by blast
  then obtain r where "drop i s = p @ r" by (auto simp: startswith_iff)
  then have "s = take i s @ p @ r" by (metis append_take_drop_id)
  then show "sublist p s" unfolding sublist_def by blast
qed

lemma tt_finditer_Nil_iff:
  "re_finditer (re_literal ''TT'') c = [] \<longleftrightarrow> \<not> sublist ''TT'' c"
proof -
  have "re_search (re_literal ''TT'') c = None
        \<longleftrightarrow> (\<forall>i\<le>length c. \<not> startswith (drop i c) ''TT'')"
    unfolding re_search_None_iff by (auto simp: re_literal_def)
  then show ?thesis
    by (simp add: re_finditer_Nil_iff sublist_iff_startswith)
qed

lemma test_candidate_accept:
  assumes "\<not> sublist ''TT'' c" "4 \<le> length c" "c ! 0 \<noteq> CHR ''T''"
  shows "test_candidate c = Inr (if \<not> all_ggtgg c then [c] else [])"
  using assms by (subst test_candidate.simps) (simp add: Let_def tt_finditer_Nil_iff)

lemma test_candidate_strip:
  assumes "\<not> sublist ''TT'' c" "4 \<le> length c" "c ! 0 = CHR ''T''"
  shows "test_candidate c = test_candidate (drop 1 c)"
  using assms by (subst test_candidate.simps) (simp add: Let_def tt_finditer_Nil_iff)

lemma test_candidate_split:
  assumes "map fst (re_finditer (re_literal ''TT'') c) = p # ps" "4 < length c"
  shows "test_candidate c =
     (case test_candidate (take (p + 1) c) of
        Inl e \<Rightarrow> Inl e
      | Inr left \<Rightarrow>
          (case test_candidate (drop (p + 1) c) of
             Inl e \<Rightarrow> Inl e
           | Inr right \<Rightarrow> Inr (left @ right)))"
proof -
  from assms(1) have ne: "re_finditer (re_literal ''TT'') c \<noteq> []" by auto
  show ?thesis
    by (subst test_candidate.simps) (simp add: Let_def assms ne del: One_nat_def)
qed

lemma test_candidate_none:
  assumes "sublist ''TT'' c \<or> length c < 4" "length c \<le> 4"
  shows "test_candidate c = Inr []"
  using assms by (subst test_candidate.simps) (auto simp: Let_def tt_finditer_Nil_iff)

lemma startswith_T_iff: "4 \<le> length c \<Longrightarrow> startswith c ''T'' \<longleftrightarrow> c ! 0 = CHR ''T''"
  by (cases c) (auto simp: startswith_def)

lemma test_candidate_result:
  "\<exists>ks. test_candidate c = Inr ks \<and> (\<forall>k\<in>set ks. sublist k c \<and> candidate_ok k)"
proof (induction c rule: length_induct)
  case (1 c)
  let ?tt = "map fst (re_finditer (re_literal ''TT'') c)"
  consider (accept) "\<not> sublist ''TT'' c" "4 \<le> length c" "c ! 0 \<noteq> CHR ''T''"
    | (strip) "\<not> sublist ''TT'' c" "4 \<le> length c" "c ! 0 = CHR ''T''"
    | (split) "sublist ''TT'' c" "4 < length c"
    | (none) "sublist ''TT'' c \<or> length c < 4" "length c \<le> 4"
    by (cases "sublist ''TT'' c"; cases "4 \<le> length c"; cases "4 < length c"; cases "c ! 0 = CHR ''T''") auto
  then show ?case
  proof cases
    case accept
    then show ?thesis
      by (simp add: test_candidate_accept candidate_ok_def startswith_T_iff)
  next
    case strip
    have "length (drop 1 c) < length c" using strip(2) by simp
    with 1 have "\<exists>ks. test_candidate (drop 1 c) = Inr ks \<and>
          (\<forall>k\<in>set ks. sublist k (drop 1 c) \<and> candidate_ok k)" by blast
    then obtain ks where ks: "test_candidate (drop 1 c) = Inr ks"
      "\<forall>k\<in>set ks. sublist k (drop 1 c) \<and> candidate_ok k" by blast
    have "\<And>k. sublist k (drop 1 c) \<Longrightarrow> sublist k c"
      by (rule sublist_order.order.trans[OF _ sublist_drop])
    with ks(2) have "\<forall>k\<in>set ks. sublist k c \<and> candidate_ok k"
      by blast
    with ks(1) strip show ?thesis by (simp add: test_candidate_strip)
  next
    case split
    then obtain p ps where tt: "?tt = p # ps"
      using tt_finditer_Nil_iff[of c] by (cases ?tt) auto
    from tt_pos_ConsD[OF tt] have p: "p + 2 \<le> length c" by simp
    then have "length (take (p + 1) c) < length c" "length (drop (p + 1) c) < length c"
      by simp_all
    then have ihl: "\<exists>ks. test_candidate (take (p + 1) c) = Inr ks \<and>
          (\<forall>k\<in>set ks. sublist k (take (p + 1) c) \<and> candidate_ok k)"
      and ihr: "\<exists>ks. test_candidate (drop (p + 1) c) = Inr ks \<and>
          (\<forall>k\<in>set ks. sublist k (drop (p + 1) c) \<and> candidate_ok k)"
      using 1 by blast+
    from ihl obtain l where l: "test_candidate (take (p + 1) c) = Inr l"
      "\<forall>k\<in>set l. sublist k (take (p + 1) c) \<and> candidate_ok k" by blast
    from ihr obtain r where r: "test_candidate (drop (p + 1) c) = Inr r"
      "\<forall>k\<in>set r. sublist k (drop (p + 1) c) \<and> candidate_ok k" by blast
    have sl: "\<And>k. sublist k (take (p + 1) c) \<Longrightarrow> sublist k c"
      by (rule sublist_order.order.trans[OF _ sublist_take])
    have sr: "\<And>k. sublist k (drop (p + 1) c) \<Longrightarrow> sublist k c"
      by (rule sublist_order.order.trans[OF _ sublist_drop])
    from l(2) r(2) sl sr have "\<forall>k\<in>set (l @ r). sublist k c \<and> candidate_ok k"
      by auto
    moreover have "test_candidate c = Inr (l @ r)"
      using test_candidate_split[OF tt split(2)] l(1) r(1) by simp
    ultimately show ?thesis by blast
  next
    case none
    then show ?thesis by (simp add: test_candidate_none)
  qed
qed


text \<open>
  Claim C1. For every input string, \<open>test_candidate\<close> returns a list, and every candidate
  in it contains no \<open>TT\<close>, has length at least 4, does not start with \<open>T\<close>, and is not
  a pure GGTGG repeat (\<open>all_ggtgg\<close> is false on it).
\<close>

theorem test_candidate_candidates_valid:
  "\<exists>ks. test_candidate c = Inr ks \<and>
     (\<forall>k\<in>set ks. \<not> sublist ''TT'' k \<and> 4 \<le> length k \<and> \<not> startswith k ''T''
        \<and> \<not> all_ggtgg k)"
  using test_candidate_result[of c] unfolding candidate_ok_def by blast

theorem test_candidate_candidates_valid_witness:
  "test_candidate ''GTGTTTGTGGTGTG'' = Inr [''GTGT'', ''GTGGTGTG'']
   \<and> \<not> sublist ''TT'' ''GTGT'' \<and> 4 \<le> length ''GTGT''
   \<and> \<not> startswith ''GTGT'' ''T'' \<and> \<not> all_ggtgg ''GTGT''
   \<and> \<not> sublist ''TT'' ''GTGGTGTG'' \<and> 4 \<le> length ''GTGGTGTG''
   \<and> \<not> startswith ''GTGGTGTG'' ''T'' \<and> \<not> all_ggtgg ''GTGGTGTG''"
proof -
  have e: "test_candidate ''GTGTTTGTGGTGTG'' = Inr [''GTGT'', ''GTGGTGTG'']"
    by code_simp
  from test_candidate_candidates_valid[of "''GTGTTTGTGGTGTG''"] e
  show ?thesis by auto
qed

text \<open>
  Claim C9. \<open>test_candidate\<close> terminates on every input. \<open>test_candidate_rel c' c\<close> is
  the call relation of the definition: the call on \<open>c\<close> makes a recursive call on
  \<open>c'\<close> (the string without its leading \<open>T\<close>, the left part up to and including the
  first \<open>T\<close> of the first \<open>TT\<close>, or the right part after it). Every such \<open>c'\<close> is
  strictly shorter than \<open>c\<close>, so every string is in the accessible part
  \<open>test_candidate_dom\<close> of the relation, and the call returns a list (it does not raise).
\<close>

theorem test_candidate_terminates:
  "(\<forall>c'. test_candidate_rel c' c \<longrightarrow> length c' < length c)
   \<and> test_candidate_dom c
   \<and> (\<exists>ks. test_candidate c = Inr ks)"
proof -
  have shorter: "length c' < length c" if "test_candidate_rel c' c" for c' c
    using that
  proof (cases rule: test_candidate_rel.cases)
    case (1 x)
    then show ?thesis by auto
  next
    case (2 x p ps)
    with tt_pos_ConsD[of c p ps] show ?thesis by simp
  next
    case (3 x p ps b)
    with tt_pos_ConsD[of c p ps] show ?thesis by simp
  qed
  have "test_candidate_dom c"
  proof (induction c rule: length_induct)
    case (1 c)
    show ?case
    proof (rule accpI)
      fix c' assume "test_candidate_rel c' c"
      then have "length c' < length c" by (rule shorter)
      with 1 show "test_candidate_dom c'" by blast
    qed
  qed
  moreover have "\<exists>ks. test_candidate c = Inr ks"
    using test_candidate_result[of c] by blast
  ultimately show ?thesis using shorter by blast
qed

theorem test_candidate_terminates_witness:
  "test_candidate_rel ''GTG'' ''TGTG'' \<and> length ''GTG'' < length ''TGTG''
   \<and> test_candidate_dom ''TGTG'' \<and> test_candidate ''TGTG'' = Inr []"
proof -
  have nil: "re_finditer (re_literal ''TT'') ''TGTG'' = []" by code_simp
  have "test_candidate_rel (drop 1 ''TGTG'') ''TGTG''"
    by (rule test_candidate_rel.intros(1)[OF refl]) (simp_all add: nil)
  then have r: "test_candidate_rel ''GTG'' ''TGTG''" by simp
  have e: "test_candidate ''TGTG'' = Inr []" by code_simp
  from test_candidate_terminates[of "''TGTG''"] r e show ?thesis by auto
qed

text \<open>
  Claim C10. For every string of length exactly 4 that contains \<open>TT\<close> (for example
  \<open>GTTG\<close>), \<open>test_candidate\<close> returns the empty list: the splitting branch needs a
  length strictly greater than 4.
\<close>

theorem test_candidate_length4_tt:
  "length c = 4 \<Longrightarrow> sublist ''TT'' c \<Longrightarrow> test_candidate c = Inr []"
  by (simp add: test_candidate_none)

theorem test_candidate_length4_tt_witness:
  "length ''GTTG'' = 4 \<and> sublist ''TT'' ''GTTG'' \<and> test_candidate ''GTTG'' = Inr []"
proof -
  have l: "length ''GTTG'' = 4" by simp
  have "''GTTG'' = ''G'' @ ''TT'' @ ''G''" by simp
  then have s: "sublist ''TT'' ''GTTG''" unfolding sublist_def by blast
  from test_candidate_length4_tt[OF l s] l s show ?thesis by simp
qed


section \<open>Properties of the pattern classifier\<close>

text \<open>\<open>GGT\<close> repeated \<open>n\<close> times.\<close>

definition ggt_repeat :: "nat \<Rightarrow> string" where
  "ggt_repeat n = concat (replicate n ''GGT'')"

text \<open>
  The pure-repeat predicate as claim C4 words it: exactly \<open>GGTGG\<close>, or \<open>GTGGTGGT\<close>
  optionally followed by one more \<open>T\<close> and nothing else, or \<open>GGT\<close> repeated two or more
  times optionally followed by one trailing \<open>G\<close>.
\<close>

definition all_ggtgg_claimed :: "string \<Rightarrow> bool" where
  "all_ggtgg_claimed seq \<longleftrightarrow>
     seq = ''GGTGG'' \<or> seq = ''GTGGTGGT'' \<or> seq = ''GTGGTGGTT''
     \<or> (\<exists>n\<ge>2. seq = ggt_repeat n \<or> seq = ggt_repeat n @ ''G'')"

lemma ggt_repeat_simps [simp]:
  "ggt_repeat 0 = []" "ggt_repeat (Suc n) = ''GGT'' @ ggt_repeat n"
  by (simp_all add: ggt_repeat_def)

lemma length_ggt_repeat [simp]: "length (ggt_repeat n) = 3 * n"
  by (induction n) simp_all

lemma drop_3_Cons: "drop (3 + n) (a # b # c # r) = drop n r"
  by (simp add: numeral_3_eq_3)

lemma count_GGT_decomp: "s = ggt_repeat (count_GGT s) @ drop (3 * count_GGT s) s"
  by (induction s rule: count_GGT.induct) (auto simp: drop_3_Cons)

lemma count_GGT_bound: "3 * count_GGT s \<le> length s"
  by (induction s rule: count_GGT.induct) auto

lemma count_GGT_short: "length r < 3 \<Longrightarrow> count_GGT r = 0"
  by (cases r rule: count_GGT.cases) auto

lemma count_GGT_repeat: "count_GGT (ggt_repeat n @ r) = n + count_GGT r"
  by (induction n) simp_all

lemma re_GGT_rep_bound: "re_GGT_rep s = Some n \<Longrightarrow> n \<le> length s"
  using count_GGT_bound[of s] startswith_length[of "drop (3 * count_GGT s) s" "''G''"]
  by (auto simp: re_GGT_rep_def Let_def split: if_splits)

lemma re_GGT_rep_whole:
  "re_GGT_rep s = Some (length s)
   \<longleftrightarrow> (\<exists>n\<ge>2. s = ggt_repeat n \<or> s = ggt_repeat n @ ''G'')"
proof
  assume a: "re_GGT_rep s = Some (length s)"
  let ?n = "count_GGT s"
  let ?r = "drop (3 * ?n) s"
  from a have n2: "2 \<le> ?n"
    and len: "length s = 3 * ?n + (if startswith ?r ''G'' then 1 else 0)"
    by (auto simp: re_GGT_rep_def Let_def split: if_splits)
  have s: "s = ggt_repeat ?n @ ?r" by (rule count_GGT_decomp)
  show "\<exists>n\<ge>2. s = ggt_repeat n \<or> s = ggt_repeat n @ ''G''"
  proof (cases "startswith ?r ''G''")
    case True
    with len have "length ?r = 1" by simp
    moreover from True obtain t where "?r = ''G'' @ t" by (auto simp: startswith_iff)
    ultimately have "?r = ''G''" by (metis append_Cons append_Nil length_0_conv length_Cons Suc_inject One_nat_def)
    with s n2 show ?thesis by metis
  next
    case False
    with len have "?r = []" by simp
    with s n2 show ?thesis by (metis append_Nil2)
  qed
next
  assume "\<exists>n\<ge>2. s = ggt_repeat n \<or> s = ggt_repeat n @ ''G''"
  then obtain n where n2: "2 \<le> n" and s: "s = ggt_repeat n \<or> s = ggt_repeat n @ ''G''"
    by blast
  from s show "re_GGT_rep s = Some (length s)"
  proof
    assume e: "s = ggt_repeat n"
    have "count_GGT s = n" using count_GGT_repeat[of n "[]"] e by simp
    with n2 e show ?thesis by (simp add: re_GGT_rep_def startswith_def)
  next
    assume e: "s = ggt_repeat n @ ''G''"
    have "count_GGT s = n" using count_GGT_repeat[of n "''G''"] e by simp
    with n2 e show ?thesis by (simp add: re_GGT_rep_def startswith_def)
  qed
qed

lemma search_whole_iff:
  assumes bound: "\<And>t n. m t = Some n \<Longrightarrow> n \<le> length t"
  shows "(case re_search m seq of Some (a, b) \<Rightarrow> slice seq a b = seq | None \<Rightarrow> False)
         \<longleftrightarrow> m seq = Some (length seq)"
proof
  assume l: "case re_search m seq of Some (a, b) \<Rightarrow> slice seq a b = seq | None \<Rightarrow> False"
  then obtain a b where r: "re_search m seq = Some (a, b)" and sl: "slice seq a b = seq"
    by (auto split: option.splits)
  from re_search_SomeD[OF r] have a: "a \<le> length seq" and m: "m (drop a seq) = Some (b - a)"
    by auto
  from bound[OF m] have b: "b - a \<le> length seq - a" by simp
  from sl have "length (take (b - a) (drop a seq)) = length seq" by (simp add: slice_def)
  with b have "b - a = length seq" by simp
  with b a have "a = 0" by simp
  with m \<open>b - a = length seq\<close> show "m seq = Some (length seq)" by simp
next
  assume "m seq = Some (length seq)"
  then have "re_search m seq = Some (0, 0 + length seq)"
    by (intro re_search_first) simp_all
  then show "case re_search m seq of Some (a, b) \<Rightarrow> slice seq a b = seq | None \<Rightarrow> False"
    by (simp add: slice_def)
qed

lemma re_GTGGTGG_T_end_iff:
  "re_GTGGTGG_T_end seq \<noteq> None \<longleftrightarrow>
     seq = ''GTGGTGG'' \<or> seq = ''GTGGTGGT''
     \<or> seq = ''GTGGTGG'' @ [CHR 0x0A] \<or> seq = ''GTGGTGGT'' @ [CHR 0x0A]"
proof (cases "startswith seq ''GTGGTGG''")
  case False
  then show ?thesis by (auto simp: re_GTGGTGG_T_end_def startswith_def)
next
  case True
  then obtain r where seq: "seq = ''GTGGTGG'' @ r" by (auto simp: startswith_iff)
  show ?thesis
  proof (cases r)
    case Nil
    with seq show ?thesis by (simp add: re_GTGGTGG_T_end_def startswith_def at_dollar_def)
  next
    case (Cons x xs)
    with seq show ?thesis
      by (simp add: re_GTGGTGG_T_end_def startswith_def at_dollar_def Let_def)
  qed
qed

text \<open>
  Claim C4, as amended. \<open>all_ggtgg seq\<close> is true if and only if \<open>seq\<close> is exactly
  \<open>GGTGG\<close>, or \<open>seq\<close> is \<open>GTGGTGG\<close> optionally followed by one \<open>T\<close> (the \<open>T?\<close> of
  \<open>GTGGTGGT?$\<close> makes the eighth character optional) and then at most one final newline
  (which \<open>$\<close> allows), or \<open>seq\<close> is \<open>GGT\<close> repeated two or more times optionally
  followed by one trailing \<open>G\<close>.
\<close>

theorem all_ggtgg_iff:
  "all_ggtgg seq \<longleftrightarrow>
     seq = ''GGTGG'' \<or> seq = ''GTGGTGG'' \<or> seq = ''GTGGTGGT''
     \<or> seq = ''GTGGTGG'' @ [CHR 0x0A] \<or> seq = ''GTGGTGGT'' @ [CHR 0x0A]
     \<or> (\<exists>n\<ge>2. seq = ggt_repeat n \<or> seq = ggt_repeat n @ ''G'')"
proof -
  have "all_ggtgg seq \<longleftrightarrow> seq = ''GGTGG'' \<or> re_GTGGTGG_T_end seq \<noteq> None
        \<or> (case re_search re_GGT_rep seq of Some (a, b) \<Rightarrow> slice seq a b = seq | None \<Rightarrow> False)"
    unfolding all_ggtgg_def Let_def by (auto split: option.splits)
  also have "\<dots> \<longleftrightarrow> seq = ''GGTGG'' \<or> re_GTGGTGG_T_end seq \<noteq> None
        \<or> re_GGT_rep seq = Some (length seq)"
    using search_whole_iff[of re_GGT_rep seq, OF re_GGT_rep_bound] by simp
  finally show ?thesis
    unfolding re_GTGGTGG_T_end_iff re_GGT_rep_whole by blast
qed

theorem all_ggtgg_iff_witness:
  "all_ggtgg ''GGTGGTG'' \<and> 2 \<le> (2::nat) \<and> ''GGTGGTG'' = ggt_repeat 2 @ ''G''"
proof -
  have e: "''GGTGGTG'' = ggt_repeat 2 @ ''G''" by (simp add: numeral_2_eq_2)
  then have "\<exists>n\<ge>2. ''GGTGGTG'' = ggt_repeat n \<or> ''GGTGGTG'' = ggt_repeat n @ ''G''"
    by (intro exI[of _ 2]) simp
  with all_ggtgg_iff[of "''GGTGGTG''"] have "all_ggtgg ''GGTGGTG''" by blast
  with e show ?thesis by blast
qed

text \<open>
  Claim C4 as stated fails: \<open>all_ggtgg\<close> is true on \<open>GTGGTGG\<close>, which is none of the
  strings the claim lists.
\<close>

theorem all_ggtgg_claimed_counterexample:
  "all_ggtgg ''GTGGTGG'' \<and> \<not> all_ggtgg_claimed ''GTGGTGG''"
proof -
  have a: "all_ggtgg ''GTGGTGG''" by code_simp
  have "\<not> (\<exists>n\<ge>2. ''GTGGTGG'' = ggt_repeat n \<or> ''GTGGTGG'' = ggt_repeat n @ ''G'')"
  proof
    assume "\<exists>n\<ge>2. ''GTGGTGG'' = ggt_repeat n \<or> ''GTGGTGG'' = ggt_repeat n @ ''G''"
    then obtain n where "2 \<le> n" and d: "''GTGGTGG'' = ggt_repeat n \<or> ''GTGGTGG'' = ggt_repeat n @ ''G''"
      by blast
    then obtain k where "n = Suc (Suc k)" by (metis Suc_le_D numeral_2_eq_2 Suc_le_mono le_Suc_ex add_Suc)
    with d show False by simp
  qed
  then have "\<not> all_ggtgg_claimed ''GTGGTGG''" by (simp add: all_ggtgg_claimed_def)
  with a show ?thesis by simp
qed


section \<open>Properties of the motif extractor\<close>

text \<open>A recorded position spells out its candidate: the span lies inside the window and
  the window's slice at the span is the candidate text.\<close>

definition span_ok :: "string \<Rightarrow> string \<Rightarrow> nat \<times> nat \<Rightarrow> bool" where
  "span_ok seq k se = (fst se \<le> snd se \<and> snd se \<le> length seq \<and> slice seq (fst se) (snd se) = k)"

text \<open>What holds of every candidate the extractor records: it passed the splitter, it is
  cut from a run of \<open>G\<close>/\<open>T\<close>, and it has no four consecutive \<open>G\<close>.\<close>

definition kmer_ok :: "string \<Rightarrow> bool" where
  "kmer_ok k = (candidate_ok k \<and> set k \<subseteq> {CHR ''G'', CHR ''T''} \<and> \<not> contains_gt4_gs k)"

lemma re_finditer_spans:
  assumes bound: "\<And>t n. m t = Some n \<Longrightarrow> n \<le> length t"
  shows "(a, b) \<in> set (re_finditer m s) \<Longrightarrow>
         a \<le> b \<and> b \<le> length s \<and> m (drop a s) = Some (b - a)"
proof (induction s arbitrary: a b rule: length_induct)
  case (1 s)
  have "re_search m s \<noteq> None"
    using 1(2) re_finditer_Nil_iff[of m s] by auto
  then obtain a0 b0 where r: "re_search m s = Some (a0, b0)" by auto
  from re_search_SomeD[OF r] have a0: "a0 \<le> length s" "a0 \<le> b0"
    and m0: "m (drop a0 s) = Some (b0 - a0)" by auto
  from bound[OF m0] a0 have b0: "b0 \<le> length s" by simp
  show ?case
  proof (cases "(a, b) = (a0, b0)")
    case True
    with a0 m0 b0 show ?thesis by simp
  next
    case False
    with 1(2) r have pos: "0 < b0"
      and mem: "(a, b) \<in> set (map (\<lambda>(a', b'). (b0 + a', b0 + b')) (re_finditer m (drop b0 s)))"
      by (subst (asm) re_finditer.simps; auto split: if_splits)+
    then obtain a' b' where ab: "a = b0 + a'" "b = b0 + b'"
      and mem': "(a', b') \<in> set (re_finditer m (drop b0 s))" by auto
    have "length (drop b0 s) < length s" using pos b0 by simp
    with 1(1) mem' have "a' \<le> b' \<and> b' \<le> length (drop b0 s) \<and> m (drop a' (drop b0 s)) = Some (b' - a')"
      by blast
    then have "a' \<le> b'" "b' \<le> length s - b0" "m (drop (a' + b0) s) = Some (b' - a')"
      by simp_all
    then have "a' \<le> b'" "b' + b0 \<le> length s" "m (drop (b0 + a') s) = Some (b' - a')"
      using b0 by (simp_all add: add.commute)
    with ab show ?thesis by (simp add: add.commute)
  qed
qed

lemma re_G_GT3_SomeD:
  assumes "re_G_GT3 t = Some n"
  shows "n \<le> length t \<and> 4 \<le> n \<and> set (take n t) \<subseteq> {CHR ''G'', CHR ''T''}"
proof -
  let ?w = "takeWhile (\<lambda>c. c = CHR ''G'' \<or> c = CHR ''T'') (drop 1 t)"
  from assms have sw: "startswith t ''G''" and n: "n = 1 + length ?w" and w3: "3 \<le> length ?w"
    by (auto simp: re_G_GT3_def Let_def split: if_splits)
  from sw obtain r where t: "t = CHR ''G'' # r" by (auto simp: startswith_iff)
  have wr: "?w = takeWhile (\<lambda>c. c = CHR ''G'' \<or> c = CHR ''T'') r" using t by simp
  have "length ?w \<le> length r" unfolding wr by (rule length_takeWhile_le)
  then have le: "n \<le> length t" using n t by simp
  have "take (length ?w) r = ?w" unfolding wr
    by (metis takeWhile_eq_take)
  then have "take n t = CHR ''G'' # ?w" using n t by simp
  moreover have "set ?w \<subseteq> {CHR ''G'', CHR ''T''}"
    using set_takeWhileD[of _ "\<lambda>c. c = CHR ''G'' \<or> c = CHR ''T''" "drop 1 t"] by auto
  ultimately show ?thesis using le n w3 by auto
qed

lemma re_G_GT3_whole:
  assumes "set k \<subseteq> {CHR ''G'', CHR ''T''}" "4 \<le> length k" "k ! 0 \<noteq> CHR ''T''"
  shows "re_G_GT3 k = Some (length k)"
proof -
  from assms(2) obtain x r where k: "k = x # r" by (cases k) auto
  with assms have x: "x = CHR ''G''" by auto
  have "\<forall>c\<in>set r. c = CHR ''G'' \<or> c = CHR ''T''" using assms(1) k by auto
  then have tw: "takeWhile (\<lambda>c. c = CHR ''G'' \<or> c = CHR ''T'') r = r"
    by (simp add: takeWhile_eq_all_conv)
  from k x assms(2) show ?thesis by (simp add: re_G_GT3_def startswith_def Let_def tw)
qed

lemma re_GGGG_plus_iff: "re_GGGG_plus t \<noteq> None \<longleftrightarrow> startswith t ''GGGG''"
proof (cases "startswith t ''GGG''")
  case False
  then show ?thesis by (auto simp: re_GGGG_plus_def startswith_iff)
next
  case True
  then obtain r where t: "t = ''GGG'' @ r" by (auto simp: startswith_iff)
  show ?thesis unfolding t
    by (cases r) (auto simp: re_GGGG_plus_def startswith_def)
qed

lemma re_GGGG_plus_None_iff: "re_GGGG_plus t = None \<longleftrightarrow> \<not> startswith t ''GGGG''"
  using re_GGGG_plus_iff[of t] by blast

lemma contains_gt4_gs_iff: "contains_gt4_gs s \<longleftrightarrow> sublist ''GGGG'' s"
proof -
  have "re_search re_GGGG_plus s = None \<longleftrightarrow> (\<forall>i\<le>length s. \<not> startswith (drop i s) ''GGGG'')"
    unfolding re_search_None_iff by (simp add: re_GGGG_plus_None_iff)
  then have "re_search re_GGGG_plus s \<noteq> None \<longleftrightarrow> sublist ''GGGG'' s"
    by (simp add: sublist_iff_startswith)
  then show ?thesis
    by (simp add: contains_gt4_gs_def)
qed


lemma sublist_same_length: "sublist k m \<Longrightarrow> length k = length m \<Longrightarrow> k = m"
  by (auto simp: sublist_def)

lemma literal_search_span:
  assumes sub: "sublist k (slice seq a b)" and ab: "a \<le> b" "b \<le> length seq"
  shows "\<exists>off e. re_search (re_literal k) (slice seq a b) = Some (off, e)
           \<and> span_ok seq k (a + off, a + off + length k)"
proof -
  let ?m = "slice seq a b"
  from sub obtain i where i: "i \<le> length ?m" "startswith (drop i ?m) k"
    by (auto simp: sublist_iff_startswith)
  have "re_search (re_literal k) ?m \<noteq> None"
  proof
    assume "re_search (re_literal k) ?m = None"
    then have "\<forall>j\<le>length ?m. re_literal k (drop j ?m) = None"
      by (simp only: re_search_None_iff)
    with i(1) have "re_literal k (drop i ?m) = None" by blast
    with i(2) show False by (simp only: re_literal_def if_True option.distinct)
  qed
  then obtain off e where r: "re_search (re_literal k) ?m = Some (off, e)" by auto
  from re_search_SomeD[OF r] have off: "off \<le> length ?m"
    and "re_literal k (drop off ?m) = Some (e - off)" by auto
  then have sw: "startswith (drop off ?m) k" by (simp add: re_literal_Some_iff)
  have lm: "length ?m = b - a" using ab by (simp add: slice_def)
  from startswith_length[OF sw] have lk: "off + length k \<le> b - a" using lm off by simp
  have "drop off ?m = take (b - a - off) (drop (a + off) seq)"
    by (simp add: slice_def drop_take add.commute)
  with sw have "take (length k) (take (b - a - off) (drop (a + off) seq)) = k"
    by (simp add: startswith_def)
  moreover have "length k \<le> b - a - off" using lk by simp
  ultimately have "take (length k) (drop (a + off) seq) = k" by (simp add: min_def)
  then have "slice seq (a + off) (a + off + length k) = k" by (simp add: slice_def)
  moreover have "a + off + length k \<le> length seq" using lk ab by simp
  ultimately have "span_ok seq k (a + off, a + off + length k)" by (simp add: span_ok_def)
  with r show ?thesis by blast
qed

lemma record_kmers_result:
  assumes ab: "a \<le> b" "b \<le> length seq"
  shows "\<forall>k\<in>set ks. sublist k (slice seq a b) \<Longrightarrow> list_all2 (span_ok seq) kmers pos \<Longrightarrow>
     \<exists>pos'. record_kmers seq (a, b) ks (kmers, pos) = Inr (kmers @ filter (\<lambda>k. k \<noteq> []) ks, pos')
          \<and> list_all2 (span_ok seq) (kmers @ filter (\<lambda>k. k \<noteq> []) ks) pos'"
proof (induction ks arbitrary: kmers pos)
  case Nil
  then show ?case by simp
next
  case (Cons k ks)
  from Cons.prems have sub: "sublist k (slice seq a b)" and rest: "\<forall>k\<in>set ks. sublist k (slice seq a b)"
    by simp_all
  have lm: "length (slice seq a b) = b - a" using ab by (simp add: slice_def)
  show ?case
  proof (cases "k = []")
    case True
    with Cons.IH[OF rest Cons.prems(2)] show ?thesis by simp
  next
    case False
    show ?thesis
    proof (cases "b - a = length k")
      case True
      with sub lm have "k = slice seq a b" by (simp add: sublist_same_length)
      then have "span_ok seq k (a, b)" using ab by (simp add: span_ok_def)
      with Cons.prems(2) have "list_all2 (span_ok seq) (kmers @ [k]) (pos @ [(a, b)])"
        by (simp add: list_all2_appendI)
      from Cons.IH[OF rest this] False True show ?thesis by simp
    next
      case ne: False
      from literal_search_span[OF sub ab] obtain off e where
        r: "re_search (re_literal k) (slice seq a b) = Some (off, e)"
        and ok: "span_ok seq k (a + off, a + off + length k)" by blast
      from ok Cons.prems(2)
      have "list_all2 (span_ok seq) (kmers @ [k]) (pos @ [(a + off, a + off + length k)])"
        by (simp add: list_all2_appendI)
      from Cons.IH[OF rest this] False ne r show ?thesis by (simp add: Let_def)
    qed
  qed
qed


lemma test_candidate_kmers:
  assumes gt: "set m \<subseteq> {CHR ''G'', CHR ''T''}" and g4: "\<not> contains_gt4_gs m"
  shows "\<exists>ks. test_candidate m = Inr ks \<and> filter (\<lambda>k. k \<noteq> []) ks = ks
           \<and> (\<forall>k\<in>set ks. sublist k m \<and> kmer_ok k)"
proof -
  from test_candidate_result[of m] obtain ks where ks: "test_candidate m = Inr ks"
    and ok: "\<forall>k\<in>set ks. sublist k m \<and> candidate_ok k" by blast
  have "sublist k m \<and> kmer_ok k \<and> k \<noteq> []" if "k \<in> set ks" for k
  proof -
    from ok that have s: "sublist k m" and c: "candidate_ok k" by simp_all
    from s gt have "set k \<subseteq> {CHR ''G'', CHR ''T''}"
      using set_mono_sublist by blast
    moreover have "\<not> contains_gt4_gs k"
    proof
      assume "contains_gt4_gs k"
      then have "sublist ''GGGG'' k" using contains_gt4_gs_iff[of k] by blast
      from this s have "sublist ''GGGG'' m" by (rule sublist_order.order.trans)
      with g4 show False using contains_gt4_gs_iff[of m] by blast
    qed
    moreover from c have "k \<noteq> []" by (auto simp: candidate_ok_def)
    ultimately show ?thesis using s c by (simp add: kmer_ok_def)
  qed
  then have "\<forall>k\<in>set ks. sublist k m \<and> kmer_ok k" and "\<forall>k\<in>set ks. k \<noteq> []" by blast+
  moreover from this(2) have "filter (\<lambda>k. k \<noteq> []) ks = ks" by (simp add: filter_id_conv)
  ultimately show ?thesis using ks by blast
qed

text \<open>The invariant of the two result lists of \<open>find_tg_kmers\<close>: they pair up, each
  position spells out its candidate, and every candidate is acceptable.\<close>

definition extract_inv :: "string \<Rightarrow> string list \<times> (nat \<times> nat) list \<Rightarrow> bool" where
  "extract_inv seq st = (list_all2 (span_ok seq) (fst st) (snd st) \<and> list_all kmer_ok (fst st))"

lemma scan_matches_result:
  "list_all (\<lambda>ab. fst ab \<le> snd ab \<and> snd ab \<le> length seq
        \<and> set (slice seq (fst ab) (snd ab)) \<subseteq> {CHR ''G'', CHR ''T''}) ms \<Longrightarrow>
   extract_inv seq st \<Longrightarrow>
   \<exists>st'. scan_matches seq ms st = Inr st' \<and> extract_inv seq st'"
proof (induction ms arbitrary: st)
  case Nil
  then show ?case by simp
next
  case (Cons ab ms)
  obtain a b where ab: "ab = (a, b)" by (cases ab)
  obtain kmers pos where st: "st = (kmers, pos)" by (cases st)
  from Cons.prems(1) ab have le: "a \<le> b" "b \<le> length seq"
    and gt: "set (slice seq a b) \<subseteq> {CHR ''G'', CHR ''T''}"
    and rest: "list_all (\<lambda>ab. fst ab \<le> snd ab \<and> snd ab \<le> length seq
        \<and> set (slice seq (fst ab) (snd ab)) \<subseteq> {CHR ''G'', CHR ''T''}) ms"
    by simp_all
  show ?case
  proof (cases "\<not> contains_gt4_gs (slice seq a b) \<and> \<not> all_ggtgg (slice seq a b)")
    case False
    with Cons.IH[OF rest Cons.prems(2)] ab show ?thesis by auto
  next
    case True
    then have g4: "\<not> contains_gt4_gs (slice seq a b)" by simp
    from test_candidate_kmers[OF gt g4] obtain ks where
      ks: "test_candidate (slice seq a b) = Inr ks" and f: "filter (\<lambda>k. k \<noteq> []) ks = ks"
      and ok: "\<forall>k\<in>set ks. sublist k (slice seq a b) \<and> kmer_ok k" by blast
    from ok have sub: "\<forall>k\<in>set ks. sublist k (slice seq a b)" by blast
    from Cons.prems(2) st have inv: "list_all2 (span_ok seq) kmers pos" "list_all kmer_ok kmers"
      by (simp_all add: extract_inv_def)
    from record_kmers_result[OF le sub inv(1)] f obtain pos' where
      rk: "record_kmers seq (a, b) ks (kmers, pos) = Inr (kmers @ ks, pos')"
      and l2: "list_all2 (span_ok seq) (kmers @ ks) pos'" by auto
    from ok inv(2) have "list_all kmer_ok (kmers @ ks)" by (auto simp: list_all_iff)
    with l2 have "extract_inv seq (kmers @ ks, pos')" by (simp add: extract_inv_def)
    from Cons.IH[OF rest this] obtain st' where
      "scan_matches seq ms (kmers @ ks, pos') = Inr st'" "extract_inv seq st'" by blast
    with True ab st ks rk show ?thesis by simp
  qed
qed

lemma re_G_GT3_bound: "re_G_GT3 t = Some n \<Longrightarrow> n \<le> length t"
  using re_G_GT3_SomeD by blast

lemma find_tg_kmers_result:
  "\<exists>kmers pos. find_tg_kmers w = Inr (kmers, pos) \<and> list_all2 (span_ok w) kmers pos
      \<and> list_all kmer_ok kmers"
proof -
  have "list_all (\<lambda>ab. fst ab \<le> snd ab \<and> snd ab \<le> length w
        \<and> set (slice w (fst ab) (snd ab)) \<subseteq> {CHR ''G'', CHR ''T''}) (re_finditer re_G_GT3 w)"
    unfolding list_all_iff
  proof
    fix ab assume "ab \<in> set (re_finditer re_G_GT3 w)"
    then have m: "(fst ab, snd ab) \<in> set (re_finditer re_G_GT3 w)" by simp
    from re_finditer_spans[of re_G_GT3, OF re_G_GT3_bound m]
    have le: "fst ab \<le> snd ab" "snd ab \<le> length w"
      and r: "re_G_GT3 (drop (fst ab) w) = Some (snd ab - fst ab)" by auto
    from re_G_GT3_SomeD[OF r] have "set (slice w (fst ab) (snd ab)) \<subseteq> {CHR ''G'', CHR ''T''}"
      by (simp add: slice_def)
    with le show "fst ab \<le> snd ab \<and> snd ab \<le> length w
        \<and> set (slice w (fst ab) (snd ab)) \<subseteq> {CHR ''G'', CHR ''T''}" by simp
  qed
  moreover have "extract_inv w ([], [])" by (simp add: extract_inv_def)
  ultimately obtain st' where "scan_matches w (re_finditer re_G_GT3 w) ([], []) = Inr st'"
    "extract_inv w st'" using scan_matches_result by blast
  then show ?thesis by (cases st') (auto simp: find_tg_kmers_def extract_inv_def)
qed


text \<open>
  Claim C8. For every window \<open>w\<close>, \<open>find_tg_kmers w\<close> returns a candidate list and a
  position list of equal length, and for every candidate \<open>k\<close> with its paired position
  \<open>(s, e)\<close> the span lies inside the window and \<open>w[s:e]\<close> equals \<open>k\<close> (also when
  \<open>s\<close> is the offset of an earlier occurrence of \<open>k\<close> in the match).
\<close>

theorem find_tg_kmers_positions_consistent:
  "\<exists>kmers pos. find_tg_kmers w = Inr (kmers, pos) \<and> length kmers = length pos
     \<and> (\<forall>i<length kmers. fst (pos ! i) \<le> snd (pos ! i) \<and> snd (pos ! i) \<le> length w
           \<and> slice w (fst (pos ! i)) (snd (pos ! i)) = kmers ! i)"
proof -
  from find_tg_kmers_result[of w] obtain kmers pos where
    r: "find_tg_kmers w = Inr (kmers, pos)" and l: "list_all2 (span_ok w) kmers pos" by blast
  from l have "length kmers = length pos"
    and "\<forall>i<length kmers. span_ok w (kmers ! i) (pos ! i)"
    by (simp_all add: list_all2_conv_all_nth)
  with r show ?thesis unfolding span_ok_def by blast
qed

theorem find_tg_kmers_positions_consistent_witness:
  "find_tg_kmers ''AAGGTGTGTTGGTGA'' = Inr ([''GGTGTGT'', ''GGTG''], [(2, 9), (2, 6)])
   \<and> slice ''AAGGTGTGTTGGTGA'' 2 9 = ''GGTGTGT''
   \<and> slice ''AAGGTGTGTTGGTGA'' 2 6 = ''GGTG''"
proof -
  have e: "find_tg_kmers ''AAGGTGTGTTGGTGA'' = Inr ([''GGTGTGT'', ''GGTG''], [(2, 9), (2, 6)])"
    by code_simp
  from find_tg_kmers_positions_consistent[of "''AAGGTGTGTTGGTGA''"] e
  have a: "\<forall>i<length [''GGTGTGT'', ''GGTG''].
      slice ''AAGGTGTGTTGGTGA'' (fst ([(2::nat, 9::nat), (2, 6)] ! i))
        (snd ([(2::nat, 9::nat), (2, 6)] ! i)) = [''GGTGTGT'', ''GGTG''] ! i"
    by auto
  from a[rule_format, of 0] a[rule_format, of 1] e show ?thesis by simp
qed

lemma kmer_ok_fixpoint:
  assumes "kmer_ok c"
  shows "find_tg_kmers c = Inr ([c], [(0, length c)]) \<and> test_candidate c = Inr [c]"
proof -
  from assms have tt: "\<not> sublist ''TT'' c" and len: "4 \<le> length c"
    and nt: "\<not> startswith c ''T''" and na: "\<not> all_ggtgg c"
    and gt: "set c \<subseteq> {CHR ''G'', CHR ''T''}" and g4: "\<not> contains_gt4_gs c"
    by (simp_all add: kmer_ok_def candidate_ok_def)
  from nt len have c0: "c ! 0 \<noteq> CHR ''T''" by (simp add: startswith_T_iff)
  have tc: "test_candidate c = Inr [c]"
    using test_candidate_accept[OF tt len c0] na by simp
  have m: "re_G_GT3 c = Some (length c)" by (rule re_G_GT3_whole[OF gt len c0])
  then have rs: "re_search re_G_GT3 c = Some (0, length c)"
    using re_search_first[of re_G_GT3 0 c "length c"] by simp
  have "re_G_GT3 [] = None" by (simp add: re_G_GT3_def startswith_def)
  then have "re_finditer re_G_GT3 [] = []" by (simp add: re_finditer_Nil_iff)
  with rs len have fi: "re_finditer re_G_GT3 c = [(0, length c)]"
    by (subst re_finditer.simps) simp
  have sl: "slice c 0 (length c) = c" by (simp add: slice_def)
  from len have ne: "c \<noteq> []" by auto
  have "scan_matches c [(0, length c)] ([], []) = Inr ([c], [(0, length c)])"
    using sl g4 na tc ne by simp
  with fi tc show ?thesis by (simp add: find_tg_kmers_def)
qed

text \<open>
  Claim C6. Acceptance is idempotent: for every candidate text \<open>c\<close> that
  \<open>find_tg_kmers\<close> returns on a window, \<open>find_tg_kmers c\<close> yields exactly the single
  candidate \<open>c\<close> (at the span of the whole text), and \<open>test_candidate c\<close> returns
  \<open>[c]\<close>.
\<close>

theorem find_tg_kmers_idempotent:
  "find_tg_kmers w = Inr (kmers, pos) \<Longrightarrow> c \<in> set kmers \<Longrightarrow>
   find_tg_kmers c = Inr ([c], [(0, length c)]) \<and> test_candidate c = Inr [c]"
proof -
  assume r: "find_tg_kmers w = Inr (kmers, pos)" and c: "c \<in> set kmers"
  from find_tg_kmers_result[of w] r have "list_all kmer_ok kmers" by auto
  with c have "kmer_ok c" by (simp add: list_all_iff)
  then show ?thesis by (rule kmer_ok_fixpoint)
qed

theorem find_tg_kmers_idempotent_witness:
  "find_tg_kmers ''AGTGTTTGTGGTGTG'' = Inr ([''GTGT'', ''GTGGTGTG''], [(1, 5), (7, 15)])
   \<and> ''GTGGTGTG'' \<in> set [''GTGT'', ''GTGGTGTG'']
   \<and> find_tg_kmers ''GTGGTGTG'' = Inr ([''GTGGTGTG''], [(0, 8)])
   \<and> test_candidate ''GTGGTGTG'' = Inr [''GTGGTGTG'']"
proof -
  have e: "find_tg_kmers ''AGTGTTTGTGGTGTG'' = Inr ([''GTGT'', ''GTGGTGTG''], [(1, 5), (7, 15)])"
    by code_simp
  have m: "''GTGGTGTG'' \<in> set [''GTGT'', ''GTGGTGTG'']" by simp
  from find_tg_kmers_idempotent[OF e m] e m show ?thesis by simp
qed


section \<open>Properties of the scorer\<close>

lemma foldl_add_scaled:
  "foldl (\<lambda>acc g. acc + real (f g) * p) a gs = a + p * real (sum_list (map f gs))"
  by (induction gs arbitrary: a) (simp_all add: algebra_simps)

lemma foldl_add_when:
  "foldl (\<lambda>acc se. if P se then acc + tp else acc) a pos = a + tp * real (length (filter P pos))"
  by (induction pos arbitrary: a) (simp_all add: algebra_simps)

lemma py_index_nat: "n < length s \<Longrightarrow> py_index s (int n) = Inr (s ! n)"
  by (simp add: py_index_def)

lemma py_index_prev:
  "n < length s \<Longrightarrow> py_index s (int n - 1) = Inr (if n = 0 then last s else s ! (n - 1))"
proof (cases n)
  case 0
  assume "n < length s"
  with 0 have "s \<noteq> []" by auto
  then have "last s = s ! (length s - 1)" by (rule last_conv_nth)
  moreover have "nat (int (length s) - 1) = length s - 1" by simp
  ultimately show ?thesis using 0 \<open>s \<noteq> []\<close> by (simp add: py_index_def)
next
  case (Suc m)
  assume "n < length s"
  with Suc show ?thesis by (simp add: py_index_def)
qed

lemma flanking_tt_iff:
  "flanking_tt seq (start, stop) \<longleftrightarrow>
     stop < length seq \<and> seq ! stop = CHR ''T''
     \<and> (if stop = 0 then last seq else seq ! (stop - 1)) = CHR ''T''"
  by (auto simp: flanking_tt_def py_index_nat py_index_prev)

lemma calculate_penalty_closed:
  "calculate_penalty groups p tp pos seq =
     p * real (sum_list (map (\<lambda>g. length (re_findall_overlapped (re_literal ''GGTGG'') g)) groups))
     + tp * real (length (filter (flanking_tt seq) pos))"
  by (simp add: calculate_penalty_def foldl_add_scaled foldl_add_when)

text \<open>
  Claim C7. \<open>calculate_penalty\<close> is the GGTGG part plus \<open>tp\<close> once for each position
  \<open>(start, end)\<close> with \<open>end < len(seq)\<close>, \<open>seq[end] = T\<close> and \<open>seq[end-1] = T\<close> (read
  as Python reads it: at \<open>end = 0\<close> the index \<open>-1\<close> is the last character; the extractor
  never records such a position). In particular a position whose end is \<open>len(seq)\<close>, a
  candidate that ends with the window, adds nothing.
\<close>

theorem calculate_penalty_flanking_tt:
  "calculate_penalty groups p tp pos seq =
     p * real (\<Sum>g\<leftarrow>groups. length (re_findall_overlapped (re_literal ''GGTGG'') g))
     + tp * real (length (filter (\<lambda>(start, stop).
           stop < length seq \<and> seq ! stop = CHR ''T''
           \<and> (if stop = 0 then last seq else seq ! (stop - 1)) = CHR ''T'') pos))
   \<and> calculate_penalty groups p tp (pos @ [(s, length seq)]) seq
       = calculate_penalty groups p tp pos seq"
proof -
  have "flanking_tt seq = (\<lambda>(start, stop).
           stop < length seq \<and> seq ! stop = CHR ''T''
           \<and> (if stop = 0 then last seq else seq ! (stop - 1)) = CHR ''T'')"
    by (rule ext) (simp only: split_paired_all flanking_tt_iff prod.case)
  moreover have "\<not> flanking_tt seq (s, length seq)" by (simp add: flanking_tt_def)
  ultimately show ?thesis by (simp add: calculate_penalty_closed)
qed

theorem calculate_penalty_flanking_tt_witness:
  "calculate_penalty [''GGTGGT''] 2 3 [(0, 6)] ''GGTGGTTA'' = 5
   \<and> calculate_penalty [''GGTGGT''] 2 3 ([(0, 6)] @ [(4, length ''GGTGGTTA'')]) ''GGTGGTTA'' = 5"
proof -
  have e: "calculate_penalty [''GGTGGT''] 2 3 [(0, 6)] ''GGTGGTTA'' = 5"
    by (simp add: calculate_penalty_def flanking_tt_def py_index_def re_literal_def startswith_def)
  from calculate_penalty_flanking_tt[of "[''GGTGGT'']" 2 3 "[(0, 6)]" "''GGTGGTTA''" 4] e
  show ?thesis by simp
qed

text \<open>
  Claim C5. For every window, with \<open>penalty = 0\<close> and \<open>tt_penalty = 0\<close> the extractor
  returns its candidates, \<open>calculate_penalty\<close> is 0, and the net window score is exactly
  the sum of the lengths of the candidates (what \<open>score_groups\<close> computes).
\<close>

theorem window_score_zero_penalties:
  "\<exists>groups pos. find_tg_kmers w = Inr (groups, pos)
     \<and> calculate_penalty groups 0 0 pos w = 0
     \<and> score_groups groups = sum_list (map length groups)
     \<and> window_score w 0 0 = Inr (real (sum_list (map length groups)))"
proof -
  from find_tg_kmers_result[of w] obtain groups pos where
    r: "find_tg_kmers w = Inr (groups, pos)" by blast
  have z: "calculate_penalty groups 0 0 pos w = 0" by (simp add: calculate_penalty_closed)
  with r have "window_score w 0 0 = Inr (real (sum_list (map length groups)))"
    by (simp add: window_score_def score_groups_def)
  with r z show ?thesis by (simp add: score_groups_def)
qed

theorem window_score_zero_penalties_witness:
  "find_tg_kmers ''AGTGTTTGTGGTGTG'' = Inr ([''GTGT'', ''GTGGTGTG''], [(1, 5), (7, 15)])
   \<and> window_score ''AGTGTTTGTGGTGTG'' 0 0 = Inr 12"
proof -
  have e: "find_tg_kmers ''AGTGTTTGTGGTGTG'' = Inr ([''GTGT'', ''GTGGTGTG''], [(1, 5), (7, 15)])"
    by code_simp
  from window_score_zero_penalties[of "''AGTGTTTGTGGTGTG''"] e
  show ?thesis by auto
qed


section \<open>Properties of the window aggregator\<close>

subsection \<open>The float roundings of the window count\<close>

text \<open>\<open>b64_exponent\<close> is the binary exponent.\<close>

lemma b64_exponent_bounds:
  assumes "x \<noteq> 0"
  shows "power_int 2 (b64_exponent x) \<le> \<bar>x\<bar> \<and> \<bar>x\<bar> < power_int 2 (b64_exponent x + 1)"
proof (cases "1 \<le> \<bar>x\<bar>")
  case True
  let ?n = "\<lfloor>\<bar>x\<bar>\<rfloor>"
  from True have n: "0 < ?n" by simp
  from bitlen_bounds[OF n] have b: "2 ^ nat (bitlen ?n - 1) \<le> ?n" "?n < 2 ^ nat (bitlen ?n)"
    by simp_all
  from n have b1: "1 \<le> bitlen ?n" by (simp add: bitlen_alt_def)
  have e: "b64_exponent x = bitlen ?n - 1" using True by (simp add: b64_exponent_def Let_def)
  have p1: "power_int (2::real) (bitlen ?n - 1) = 2 ^ nat (bitlen ?n - 1)"
    using b1 by (simp add: power_int_def)
  have p2: "power_int (2::real) (bitlen ?n - 1 + 1) = 2 ^ nat (bitlen ?n)"
    using b1 by (simp add: power_int_def)
  from b(1) have "(2::real) ^ nat (bitlen ?n - 1) \<le> real_of_int ?n"
    by (metis numeral_power_le_of_int_cancel_iff)
  moreover have "real_of_int ?n \<le> \<bar>x\<bar>" by (rule of_int_floor_le)
  ultimately have l: "2 ^ nat (bitlen ?n - 1) \<le> \<bar>x\<bar>" by linarith
  from b(2) have "?n + 1 \<le> 2 ^ nat (bitlen ?n)" by simp
  then have "real_of_int (?n + 1) \<le> (2::real) ^ nat (bitlen ?n)"
    by (metis of_int_le_numeral_power_cancel_iff)
  moreover have "\<bar>x\<bar> < real_of_int (?n + 1)" by simp
  ultimately have u: "\<bar>x\<bar> < 2 ^ nat (bitlen ?n)" by linarith
  from l u show ?thesis unfolding e p1 p2 by simp
next
  case False
  let ?m = "\<bar>x\<bar>"
  let ?c = "\<lceil>1 / ?m\<rceil>"
  let ?k = "bitlen (?c - 1)"
  from assms False have m: "0 < ?m" "?m < 1" by simp_all
  then have "1 < 1 / ?m" by simp
  then have c2: "2 \<le> ?c" by (simp add: le_ceiling_iff)
  then have c1: "0 < ?c - 1" by simp
  from bitlen_bounds[OF c1] have b: "2 ^ nat (?k - 1) \<le> ?c - 1" "?c - 1 < 2 ^ nat ?k"
    by simp_all
  from c1 have k1: "1 \<le> ?k" by (simp add: bitlen_alt_def)
  have e: "b64_exponent x = - ?k" using False by (simp add: b64_exponent_def Let_def)
  have pm: "power_int (2::real) (- int N) = 1 / 2 ^ N" for N
    by (simp only: power_int_minus power_int_of_nat inverse_eq_divide)
  have "- ?k = - int (nat ?k)" using k1 by simp
  then have p1: "power_int (2::real) (- ?k) = 1 / 2 ^ nat ?k"
    using pm[of "nat ?k"] by (simp only:)
  have "- ?k + 1 = - int (nat (?k - 1))" using k1 by simp
  then have p2: "power_int (2::real) (- ?k + 1) = 1 / 2 ^ nat (?k - 1)"
    using pm[of "nat (?k - 1)"] by (simp only:)
  from b(2) have "?c \<le> 2 ^ nat ?k" by simp
  then have "real_of_int ?c \<le> (2::real) ^ nat ?k"
    by (metis of_int_le_numeral_power_cancel_iff)
  moreover have "1 / ?m \<le> real_of_int ?c" by (rule le_of_int_ceiling)
  ultimately have "1 / ?m \<le> 2 ^ nat ?k" by linarith
  then have l: "1 / 2 ^ nat ?k \<le> ?m" using m(1) by (simp add: field_simps)
  from b(1) have "(2::real) ^ nat (?k - 1) \<le> real_of_int (?c - 1)"
    by (metis numeral_power_le_of_int_cancel_iff)
  moreover have "real_of_int (?c - 1) < 1 / ?m" using ceiling_correct[of "1 / ?m"] by simp
  ultimately have "2 ^ nat (?k - 1) < 1 / ?m" by linarith
  then have u: "?m < 1 / 2 ^ nat (?k - 1)" using m(1) by (simp add: field_simps)
  from l u show ?thesis unfolding e p1 p2 by simp
qed

lemma py_round_ge_floor: "\<lfloor>x\<rfloor> \<le> py_round x"
  by (simp add: py_round_def Let_def)

lemma py_round_le_floor_Suc: "py_round x \<le> \<lfloor>x\<rfloor> + 1"
  by (simp add: py_round_def Let_def)

lemma py_round_of_int [simp]: "py_round (of_int n) = n"
  by (simp add: py_round_def)

lemma py_round_ge: "of_int n \<le> t \<Longrightarrow> n \<le> py_round t"
proof -
  assume "of_int n \<le> t"
  then have "n \<le> \<lfloor>t\<rfloor>" by (simp add: le_floor_iff)
  with py_round_ge_floor[of t] show ?thesis by linarith
qed

lemma py_round_le: "t \<le> of_int n \<Longrightarrow> py_round t \<le> n"
proof (cases "t = of_int n")
  case True
  then show ?thesis by simp
next
  case False
  assume "t \<le> of_int n"
  with False have "t < of_int n" by simp
  then have "\<lfloor>t\<rfloor> < n" by (simp add: floor_less_iff)
  with py_round_le_floor_Suc[of t] show ?thesis by linarith
qed

lemma b64_exponent_le:
  assumes "\<bar>x\<bar> < 2 ^ Suc k"
  shows "b64_exponent x \<le> int k"
proof (cases "1 \<le> \<bar>x\<bar>")
  case True
  from assms have "\<lfloor>\<bar>x\<bar>\<rfloor> < 2 ^ Suc k" by (simp add: floor_less_iff)
  then have "nat \<lfloor>\<bar>x\<bar>\<rfloor> < 2 ^ Suc k" by (simp add: nat_less_iff)
  then have "floorlog 2 (nat \<lfloor>\<bar>x\<bar>\<rfloor>) \<le> Suc k" by (simp add: floorlog_le_iff)
  then have "bitlen \<lfloor>\<bar>x\<bar>\<rfloor> \<le> int k + 1" by (simp add: bitlen_def)
  with True show ?thesis by (simp add: b64_exponent_def Let_def)
next
  case False
  have "0 \<le> bitlen (\<lceil>1 / \<bar>x\<bar>\<rceil> - 1)" by (rule bitlen_nonneg)
  with False show ?thesis by (simp add: b64_exponent_def Let_def)
qed

text \<open>Below \<open>2^(53-n)\<close> the binary64 numbers include every multiple of \<open>2^(-n)\<close>, so
  rounding does not cross one.\<close>

lemma b64_ulp_grid:
  assumes "\<bar>x\<bar> < 2 ^ (53 - n)" "n \<le> 52"
  obtains d :: nat where
    "power_int 2 (max (b64_exponent x) (- 1022) - 52) = 1 / (2 ^ n * 2 ^ d :: real)"
proof -
  from assms(2) have "53 - n = Suc (52 - n)" by simp
  with assms(1) have "\<bar>x\<bar> < 2 ^ Suc (52 - n)" by (simp only:)
  then have "b64_exponent x \<le> int (52 - n)" by (rule b64_exponent_le)
  with assms(2) have j: "max (b64_exponent x) (- 1022) - 52 \<le> - int n" by simp
  define d where "d = nat (- (max (b64_exponent x) (- 1022) - 52)) - n"
  from j have "max (b64_exponent x) (- 1022) - 52 = - int (n + d)" by (simp add: d_def)
  then have "power_int 2 (max (b64_exponent x) (- 1022) - 52)
      = power_int (2::real) (- int (n + d))" by (simp only:)
  also have "\<dots> = 1 / (2 ^ (n + d) :: real)"
    by (simp only: power_int_minus power_int_of_nat inverse_eq_divide)
  finally have "power_int 2 (max (b64_exponent x) (- 1022) - 52) = 1 / (2 ^ (n + d) :: real)" .
  then show ?thesis using that by (simp add: power_add)
qed

lemma b64_round_ge_grid:
  assumes "\<bar>x\<bar> < 2 ^ (53 - n)" "n \<le> 52" "of_int k / 2 ^ n \<le> x"
  shows "of_int k / 2 ^ n \<le> b64_round x"
proof (cases "x = 0")
  case True
  with assms(3) show ?thesis by (simp add: b64_round_def)
next
  case False
  from b64_ulp_grid[OF assms(1,2)] obtain d :: nat where
    u: "power_int 2 (max (b64_exponent x) (- 1022) - 52) = 1 / (2 ^ n * 2 ^ d :: real)" .
  let ?u = "1 / (2 ^ n * 2 ^ d :: real)"
  from assms(3) have "of_int k / 2 ^ n * (2 ^ n * 2 ^ d) \<le> x * (2 ^ n * 2 ^ d)"
    by (rule mult_right_mono) simp
  then have "real_of_int (k * 2 ^ d) \<le> x / ?u" by simp
  then have "k * 2 ^ d \<le> py_round (x / ?u)" by (rule py_round_ge)
  then have "real_of_int (k * 2 ^ d) \<le> real_of_int (py_round (x / ?u))"
    by (simp only: of_int_le_iff)
  then have le: "real_of_int (k * 2 ^ d) * ?u \<le> of_int (py_round (x / ?u)) * ?u"
    by (rule mult_right_mono) simp
  have fl: "b64_round x = of_int (py_round (x / ?u)) * ?u"
    unfolding b64_round_def Let_def u using False by simp
  have "of_int k / 2 ^ n = real_of_int (k * 2 ^ d) * ?u" by simp
  also note le
  also note fl[symmetric]
  finally show ?thesis .
qed

lemma b64_round_le_grid:
  assumes "\<bar>x\<bar> < 2 ^ (53 - n)" "n \<le> 52" "x \<le> of_int k / 2 ^ n"
  shows "b64_round x \<le> of_int k / 2 ^ n"
proof (cases "x = 0")
  case True
  with assms(3) show ?thesis by (simp add: b64_round_def)
next
  case False
  from b64_ulp_grid[OF assms(1,2)] obtain d :: nat where
    u: "power_int 2 (max (b64_exponent x) (- 1022) - 52) = 1 / (2 ^ n * 2 ^ d :: real)" .
  let ?u = "1 / (2 ^ n * 2 ^ d :: real)"
  from assms(3) have "x * (2 ^ n * 2 ^ d) \<le> of_int k / 2 ^ n * (2 ^ n * 2 ^ d)"
    by (rule mult_right_mono) simp
  then have "x / ?u \<le> real_of_int (k * 2 ^ d)" by simp
  then have "py_round (x / ?u) \<le> k * 2 ^ d" by (rule py_round_le)
  then have "real_of_int (py_round (x / ?u)) \<le> real_of_int (k * 2 ^ d)"
    by (simp only: of_int_le_iff)
  then have le: "of_int (py_round (x / ?u)) * ?u \<le> real_of_int (k * 2 ^ d) * ?u"
    by (rule mult_right_mono) simp
  have fl: "b64_round x = of_int (py_round (x / ?u)) * ?u"
    unfolding b64_round_def Let_def u using False by simp
  note fl
  also note le
  also have "real_of_int (k * 2 ^ d) * ?u = of_int k / 2 ^ n" by simp
  finally show ?thesis .
qed


lemma b64_div_add1_bounds:
  fixes a step lo hi :: int and n :: nat
  assumes step: "step \<noteq> 0" and n: "n \<le> 52"
    and small: "\<bar>real_of_int a / real_of_int step\<bar> + 2 \<le> 2 ^ (53 - n)"
    and lo: "of_int lo / 2 ^ n \<le> real_of_int a / real_of_int step"
    and hi: "real_of_int a / real_of_int step \<le> of_int hi / 2 ^ n"
  shows "\<exists>q. py_int_truediv a step = Inr q
           \<and> of_int lo / 2 ^ n + 1 \<le> py_float_add q 1
           \<and> py_float_add q 1 \<le> of_int hi / 2 ^ n + 1"
proof -
  let ?x = "real_of_int a / real_of_int step"
  let ?q = "b64_round ?x"
  let ?B = "(2::real) ^ (53 - n)"
  have pw: "(2::real) ^ (53 - n) * 2 ^ n = 2 ^ 53"
    using n by (simp add: power_add[symmetric])
  have gB: "real_of_int (2 ^ 53 - 2 * 2 ^ n) / 2 ^ n = ?B - 2"
    using pw by (simp add: field_simps)
  have gB': "real_of_int (- (2 ^ 53 - 2 * 2 ^ n)) / 2 ^ n = - (?B - 2)"
    using pw by (simp add: field_simps)
  from small have xs: "\<bar>?x\<bar> < ?B" and xu: "?x \<le> ?B - 2" and xl: "- (?B - 2) \<le> ?x"
    by linarith+
  have qlo: "of_int lo / 2 ^ n \<le> ?q" by (rule b64_round_ge_grid[OF xs n lo])
  have qhi: "?q \<le> of_int hi / 2 ^ n" by (rule b64_round_le_grid[OF xs n hi])
  have qu: "?q \<le> ?B - 2"
    using b64_round_le_grid[OF xs n, of "2 ^ 53 - 2 * 2 ^ n"] xu unfolding gB by simp
  have ql: "- (?B - 2) \<le> ?q"
    using b64_round_ge_grid[OF xs n, of "- (2 ^ 53 - 2 * 2 ^ n)"] xl unfolding gB' by simp
  have "?B \<le> 2 ^ 53" by (rule power_increasing) simp_all
  also have "\<dots> < (2::real) ^ 1024" by (rule power_strict_increasing) simp_all
  finally have "\<bar>?q\<bar> < 2 ^ 1024" using qu ql by linarith
  then have div: "py_int_truediv a step = Inr ?q"
    using step by (simp add: py_int_truediv_def Let_def)
  from qu ql have ys: "\<bar>?q + 1\<bar> < ?B" by linarith
  have g1: "real_of_int (lo + 2 ^ n) / 2 ^ n = of_int lo / 2 ^ n + 1"
    by (simp add: field_simps)
  have g2: "real_of_int (hi + 2 ^ n) / 2 ^ n = of_int hi / 2 ^ n + 1"
    by (simp add: field_simps)
  from qlo have "real_of_int (lo + 2 ^ n) / 2 ^ n \<le> ?q + 1" unfolding g1 by simp
  from b64_round_ge_grid[OF ys n this]
  have ylo: "of_int lo / 2 ^ n + 1 \<le> py_float_add ?q 1"
    unfolding g1 by (simp add: py_float_add_def)
  from qhi have "?q + 1 \<le> real_of_int (hi + 2 ^ n) / 2 ^ n" unfolding g2 by simp
  from b64_round_le_grid[OF ys n this]
  have yhi: "py_float_add ?q 1 \<le> of_int hi / 2 ^ n + 1"
    unfolding g2 by (simp add: py_float_add_def)
  from div ylo yhi show ?thesis by blast
qed


lemma inverse_step_ge:
  fixes step :: int
  assumes "0 < step" "step \<le> 2 ^ k"
  shows "1 / 2 ^ k \<le> 1 / real_of_int step"
proof -
  from assms(2) have "real_of_int step \<le> real_of_int (2 ^ k)" by (simp only: of_int_le_iff)
  then have "real_of_int step \<le> 2 ^ k" by simp
  moreover have "0 < real_of_int step" using assms(1) by simp
  ultimately show ?thesis by (simp add: frac_le)
qed

lemma signal_num_windows:
  fixes a step :: int
  assumes s0: "0 < step" and s1: "step \<le> 2 ^ 20" and a: "\<bar>a\<bar> < 2 ^ 32"
  shows "\<exists>q. py_int_truediv a step = Inr q
           \<and> \<lceil>py_float_add q 1\<rceil> = \<lceil>real_of_int a / real_of_int step + 1\<rceil>"
proof -
  let ?x = "real_of_int a / real_of_int step"
  let ?m = "a div step"
  let ?r = "a mod step"
  have S: "0 < real_of_int step" using s0 by simp
  have "real_of_int a = real_of_int ?m * real_of_int step + real_of_int ?r"
    by (metis of_int_add of_int_mult div_mult_mod_eq)
  then have x: "?x = real_of_int ?m + real_of_int ?r / real_of_int step"
    using S by (simp add: field_simps)
  have inv: "1 / 2 ^ 20 \<le> 1 / real_of_int step" by (rule inverse_step_ge[OF s0 s1])
  have "\<bar>real_of_int a\<bar> \<le> 2 ^ 32 - 1"
  proof -
    from a have "\<bar>a\<bar> \<le> 2 ^ 32 - 1" by simp
    then have "real_of_int \<bar>a\<bar> \<le> real_of_int (2 ^ 32 - 1)" by (simp only: of_int_le_iff)
    then show ?thesis by simp
  qed
  moreover have "\<bar>?x\<bar> \<le> \<bar>real_of_int a\<bar>"
  proof -
    have "1 \<le> real_of_int step" using s0 by simp
    then have "\<bar>real_of_int a\<bar> / real_of_int step \<le> \<bar>real_of_int a\<bar> / 1"
      by (intro divide_left_mono) simp_all
    then show ?thesis using S by simp
  qed
  ultimately have small: "\<bar>?x\<bar> + 2 \<le> 2 ^ (53 - 20)" by simp
  have n: "(20::nat) \<le> 52" by simp
  show ?thesis
  proof (cases "?r = 0")
    case True
    with x have xm: "?x = real_of_int ?m" by simp
    have g: "real_of_int (?m * 2 ^ 20) / 2 ^ 20 = real_of_int ?m" by simp
    from b64_div_add1_bounds[of step 20 a "?m * 2 ^ 20" "?m * 2 ^ 20", OF _ n small]
    obtain q where q: "py_int_truediv a step = Inr q"
      "real_of_int ?m + 1 \<le> py_float_add q 1" "py_float_add q 1 \<le> real_of_int ?m + 1"
      using s0 xm unfolding g by auto
    then have "py_float_add q 1 = real_of_int (?m + 1)" by simp
    then have "\<lceil>py_float_add q 1\<rceil> = ?m + 1" by (simp only: ceiling_of_int)
    moreover have "\<lceil>?x + 1\<rceil> = ?m + 1" unfolding xm by simp
    ultimately show ?thesis using q(1) by simp
  next
    case False
    have "0 \<le> ?r" "?r < step" using s0 by simp_all
    with False have r: "1 \<le> ?r" "?r \<le> step - 1" by simp_all
    then have rr: "1 \<le> real_of_int ?r" "real_of_int ?r \<le> real_of_int step - 1"
      by (metis of_int_1 of_int_le_iff, metis of_int_1 of_int_diff of_int_le_iff)
    have lo1: "1 / real_of_int step \<le> real_of_int ?r / real_of_int step"
      using rr(1) S by (simp add: divide_right_mono)
    have hi1: "real_of_int ?r / real_of_int step \<le> 1 - 1 / real_of_int step"
    proof -
      have "real_of_int ?r / real_of_int step \<le> (real_of_int step - 1) / real_of_int step"
        using rr(2) S by (simp add: divide_right_mono)
      also have "\<dots> = 1 - 1 / real_of_int step" using S by (simp add: field_simps)
      finally show ?thesis .
    qed
    have glo: "real_of_int (?m * 2 ^ 20 + 1) / 2 ^ 20 = real_of_int ?m + 1 / 2 ^ 20"
      by (simp add: field_simps)
    have ghi: "real_of_int ((?m + 1) * 2 ^ 20 - 1) / 2 ^ 20 = real_of_int ?m + 1 - 1 / 2 ^ 20"
      by (simp add: field_simps)
    have lo: "real_of_int (?m * 2 ^ 20 + 1) / 2 ^ 20 \<le> ?x"
      unfolding glo x using lo1 inv by linarith
    have hi: "?x \<le> real_of_int ((?m + 1) * 2 ^ 20 - 1) / 2 ^ 20"
      unfolding ghi x using hi1 inv by linarith
    from b64_div_add1_bounds[of step 20 a _ _, OF _ n small lo hi] s0
    obtain q where q: "py_int_truediv a step = Inr q"
      "real_of_int (?m * 2 ^ 20 + 1) / 2 ^ 20 + 1 \<le> py_float_add q 1"
      "py_float_add q 1 \<le> real_of_int ((?m + 1) * 2 ^ 20 - 1) / 2 ^ 20 + 1"
      by auto
    from q(2,3) have y: "real_of_int ?m + 1 < py_float_add q 1"
      "py_float_add q 1 < real_of_int ?m + 2"
      unfolding glo ghi by simp_all
    then have "\<lceil>py_float_add q 1\<rceil> = ?m + 2"
      by (intro ceiling_unique) simp_all
    moreover have "\<lceil>?x + 1\<rceil> = ?m + 2"
    proof (rule ceiling_unique)
      have p: "0 < 1 / real_of_int step" using S by simp
      from lo1 p have rpos: "0 < real_of_int ?r / real_of_int step" by linarith
      from hi1 p have rlt: "real_of_int ?r / real_of_int step < 1" by linarith
      show "real_of_int (?m + 2) - 1 < ?x + 1" unfolding x using rpos by simp
      show "?x + 1 \<le> real_of_int (?m + 2)" unfolding x using rlt by simp
    qed
    ultimately show ?thesis using q(1) by simp
  qed
qed

lemma py_round_one: "1 / 2 < x \<Longrightarrow> x < 1 \<Longrightarrow> py_round x = 1"
proof -
  assume a: "1 / 2 < x" "x < 1"
  then have "\<lfloor>x\<rfloor> = 0" by (simp add: floor_eq_iff)
  with a show ?thesis by (simp add: py_round_def)
qed

lemma max_num_windows_one:
  fixes d step :: int
  assumes s0: "0 < step" and s1: "step \<le> 2 ^ 20" and d0: "0 < d" and d1: "2 * d < step"
  shows "\<exists>q. py_int_truediv (- d) step = Inr q \<and> py_round (py_float_add q 1) = 1"
proof -
  let ?x = "real_of_int (- d) / real_of_int step"
  have S: "0 < real_of_int step" using s0 by simp
  have inv: "1 / 2 ^ 20 \<le> 1 / real_of_int step" by (rule inverse_step_ge[OF s0 s1])
  have dd: "1 \<le> real_of_int d" using d0 by simp
  from d1 have "2 * d \<le> step - 1" by simp
  then have "real_of_int (2 * d) \<le> real_of_int (step - 1)" by (simp only: of_int_le_iff)
  then have d2: "2 * real_of_int d \<le> real_of_int step - 1" by simp
  have xu: "?x \<le> - (1 / real_of_int step)"
  proof -
    have "1 / real_of_int step \<le> real_of_int d / real_of_int step"
      using dd S by (simp add: divide_right_mono)
    then show ?thesis by simp
  qed
  have xl: "- (1 / 2) + 1 / (2 * real_of_int step) \<le> ?x"
  proof -
    have "real_of_int d / real_of_int step \<le> ((real_of_int step - 1) / 2) / real_of_int step"
      using d2 S by (intro divide_right_mono) simp_all
    also have "\<dots> = 1 / 2 - 1 / (2 * real_of_int step)" using S by (simp add: field_simps)
    finally show ?thesis by simp
  qed
  have glo: "real_of_int (- (2 ^ 20) + 1) / 2 ^ 21 = - (1 / 2) + 1 / 2 ^ 21" by simp
  have ghi: "real_of_int (- 2) / 2 ^ 21 = - (1 / 2 ^ 20)" by simp
  have inv2: "1 / 2 ^ 21 \<le> 1 / (2 * real_of_int step)" using inv by simp
  have lo: "real_of_int (- (2 ^ 20) + 1) / 2 ^ 21 \<le> ?x"
    unfolding glo using xl inv2 by linarith
  have hi: "?x \<le> real_of_int (- 2) / 2 ^ 21"
    unfolding ghi using xu inv by linarith
  have p: "0 < 1 / real_of_int step" and p2: "0 < 1 / (2 * real_of_int step)"
    using S by simp_all
  from xl xu p p2 have "\<bar>?x\<bar> \<le> 1 / 2" by linarith
  moreover have "(2::real) ^ (53 - 21) = 4294967296" by simp
  ultimately have small: "\<bar>?x\<bar> + 2 \<le> 2 ^ (53 - 21)" by linarith
  have n: "(21::nat) \<le> 52" by simp
  from b64_div_add1_bounds[of step 21 "- d" _ _, OF _ n small lo hi] s0
  obtain q where q: "py_int_truediv (- d) step = Inr q"
    "real_of_int (- (2 ^ 20) + 1) / 2 ^ 21 + 1 \<le> py_float_add q 1"
    "py_float_add q 1 \<le> real_of_int (- 2) / 2 ^ 21 + 1"
    by auto
  from q(2,3) have "1 / 2 < py_float_add q 1" "py_float_add q 1 < 1"
    unfolding glo ghi by simp_all
  then have "py_round (py_float_add q 1) = 1" by (rule py_round_one)
  with q(1) show ?thesis by blast
qed

subsection \<open>The window loops\<close>

lemma window_score_total: "\<exists>v. window_score w p tp = Inr v"
  using find_tg_kmers_result[of w] by (auto simp: window_score_def)

lemma py_range_pos:
  assumes "0 < step"
  shows "py_range 0 (n * step) step = map (\<lambda>k. int k * step) [0..<nat n]"
proof -
  have "(n * step + (step - 1)) div step = n + (step - 1) div step"
    using assms by (simp add: div_mult_self3)
  moreover have "(step - 1) div step = 0" using assms by (simp add: div_pos_pos_trivial)
  ultimately have "(n * step - 0 + step - 1) div step = n" by (simp add: algebra_simps)
  with assms show ?thesis by (simp add: py_range_def)
qed

lemma py_slice_length_le:
  assumes "0 \<le> i" "i \<le> int (length s)"
  shows "int (length (py_slice s i j)) \<le> int (length s) - i"
  using assms by (simp add: py_slice_def py_bound_def Let_def)

lemma py_slice_whole:
  assumes "int (length s) < w"
  shows "py_slice s 0 (0 + w) = s"
  using assms by (simp add: py_slice_def py_bound_def Let_def)

lemma signal_loop_result:
  "\<exists>ws. signal_loop seq chr start p tp window strand is scores = Inr ws
      \<and> length ws = length scores + length is
      \<and> (strand = ''+'' \<longrightarrow> (\<forall>w\<in>set scores. win_end w \<le> B)
           \<longrightarrow> (\<forall>i\<in>set is. start + i + int (length (py_slice seq i (i + window))) \<le> B)
           \<longrightarrow> (\<forall>w\<in>set ws. win_end w \<le> B))"
proof (induction "is" arbitrary: scores)
  case Nil
  then show ?case by simp
next
  case (Cons i "is")
  from window_score_total obtain sc where
    sc: "window_score (py_slice seq i (i + window)) p tp = Inr sc" by blast
  let ?len = "int (length (py_slice seq i (i + window)))"
  show ?case
  proof (cases "strand = ''+''")
    case True
    let ?row = "\<lparr>chrom = chr, win_start = start + i, win_end = start + i + ?len, score = sc\<rparr>"
    from Cons.IH[of "scores @ [?row]"] obtain ws where
      ws: "signal_loop seq chr start p tp window strand is (scores @ [?row]) = Inr ws"
      "length ws = length (scores @ [?row]) + length is"
      "strand = ''+'' \<longrightarrow> (\<forall>w\<in>set (scores @ [?row]). win_end w \<le> B)
           \<longrightarrow> (\<forall>i\<in>set is. start + i + int (length (py_slice seq i (i + window))) \<le> B)
           \<longrightarrow> (\<forall>w\<in>set ws. win_end w \<le> B)" by blast
    from ws(1) sc True have "signal_loop seq chr start p tp window strand (i # is) scores = Inr ws"
      by (simp add: Let_def)
    moreover from ws(2) have "length ws = length scores + length (i # is)" by simp
    moreover from ws(3) have "strand = ''+'' \<longrightarrow> (\<forall>w\<in>set scores. win_end w \<le> B)
           \<longrightarrow> (\<forall>j\<in>set (i # is). start + j + int (length (py_slice seq j (j + window))) \<le> B)
           \<longrightarrow> (\<forall>w\<in>set ws. win_end w \<le> B)" by simp
    ultimately show ?thesis by blast
  next
    case False
    let ?row = "\<lparr>chrom = chr, win_start = start - i - ?len, win_end = start - i, score = sc\<rparr>"
    from Cons.IH[of "scores @ [?row]"] obtain ws where
      ws: "signal_loop seq chr start p tp window strand is (scores @ [?row]) = Inr ws"
      "length ws = length (scores @ [?row]) + length is" by blast
    from ws(1) sc False have "signal_loop seq chr start p tp window strand (i # is) scores = Inr ws"
      by (simp add: Let_def)
    moreover from ws(2) have "length ws = length scores + length (i # is)" by simp
    ultimately show ?thesis using False by blast
  qed
qed

lemma window_offset_bound:
  assumes s: "0 < step" and k: "int k < \<lceil>real_of_int (L - window) / real_of_int step + 1\<rceil>"
  shows "int k * step < L - window + step"
proof -
  from k have "real_of_int (int k) < real_of_int (L - window) / real_of_int step + 1"
    by (simp only: less_ceiling_iff)
  then have "real_of_int (int k) - 1 < real_of_int (L - window) / real_of_int step" by simp
  then have "(real_of_int (int k) - 1) * real_of_int step < real_of_int (L - window)"
    using s by (simp add: pos_less_divide_eq)
  then have "real_of_int (int k * step) < real_of_int (L - window + step)"
    by (simp add: algebra_simps)
  then show ?thesis by (simp only: of_int_less_iff)
qed

text \<open>
  Claim C2, as amended. For every sequence of length \<open>L\<close>, window size \<open>W\<close> and step
  \<open>S\<close> with \<open>0 < S \<le> 2^20\<close> and \<open>|L - W| < 2^32\<close> (where the two float roundings of
  the count cannot cross an integer), signal mode returns exactly
  \<open>max(0, ceil((L-W)/S + 1))\<close> scored windows, the quotient being the exact one; and
  when \<open>S \<le> W\<close>, on the \<open>+\<close> strand the end coordinate of every window (so also of the
  last one) does not exceed \<open>start + L\<close>.
\<close>

theorem calc_score_over_windows_count:
  assumes "0 < step" "step \<le> 2 ^ 20" "\<bar>int (length seq) - window\<bar> < 2 ^ 32"
  shows "\<exists>ws. calc_score_over_windows seq chr start p tp window step strand = Inr ws
     \<and> int (length ws) = max 0 \<lceil>real_of_int (int (length seq) - window) / real_of_int step + 1\<rceil>
     \<and> (step \<le> window \<longrightarrow> strand = ''+''
          \<longrightarrow> (\<forall>w\<in>set ws. win_end w \<le> start + int (length seq)))"
proof -
  let ?L = "int (length seq)"
  let ?n = "\<lceil>real_of_int (?L - window) / real_of_int step + 1\<rceil>"
  let ?is = "map (\<lambda>k. int k * step) [0..<nat ?n]"
  from signal_num_windows[OF assms] obtain q where
    q: "py_int_truediv (?L - window) step = Inr q" "\<lceil>py_float_add q 1\<rceil> = ?n" by blast
  from signal_loop_result[of seq chr start p tp window strand ?is "[]" "start + ?L"]
  obtain ws where ws: "signal_loop seq chr start p tp window strand ?is [] = Inr ws"
    "length ws = length ?is"
    "strand = ''+'' \<longrightarrow>
       (\<forall>i\<in>set ?is. start + i + int (length (py_slice seq i (i + window))) \<le> start + ?L)
       \<longrightarrow> (\<forall>w\<in>set ws. win_end w \<le> start + ?L)" by auto
  have r: "calc_score_over_windows seq chr start p tp window step strand = Inr ws"
    using assms(1) ws(1) q by (simp add: calc_score_over_windows_def py_range_pos)
  have c: "int (length ws) = max 0 ?n" using ws(2) by simp
  have b: "\<forall>w\<in>set ws. win_end w \<le> start + ?L" if sw: "step \<le> window" and st: "strand = ''+''"
  proof -
    have "start + i + int (length (py_slice seq i (i + window))) \<le> start + ?L"
      if "i \<in> set ?is" for i
    proof -
      from that obtain k where k: "k < nat ?n" "i = int k * step" by auto
      then have "int k < ?n" by simp
      from window_offset_bound[OF assms(1) this] sw k(2) have "i < ?L" by simp
      moreover have "0 \<le> i" using k(2) assms(1) by simp
      ultimately show ?thesis using py_slice_length_le[of i seq "i + window"] by simp
    qed
    with ws(3) st show ?thesis by blast
  qed
  from r c b show ?thesis by blast
qed

theorem calc_score_over_windows_count_witness:
  "(0::int) < 4 \<and> (4::int) \<le> 2 ^ 20 \<and> \<bar>int (length ''GTGTGAGTGT'') - 4\<bar> < 2 ^ 32
   \<and> (4::int) \<le> 4
   \<and> calc_score_over_windows ''GTGTGAGTGT'' ''chr1'' 100 0 0 4 4 ''+'' =
       Inr [\<lparr>chrom = ''chr1'', win_start = 100, win_end = 104, score = 4\<rparr>,
            \<lparr>chrom = ''chr1'', win_start = 104, win_end = 108, score = 0\<rparr>,
            \<lparr>chrom = ''chr1'', win_start = 108, win_end = 110, score = 0\<rparr>]
   \<and> max 0 \<lceil>real_of_int (int (length ''GTGTGAGTGT'') - 4) / real_of_int 4 + 1\<rceil> = 3
   \<and> (110::int) \<le> 100 + int (length ''GTGTGAGTGT'')"
proof -
  have e: "calc_score_over_windows ''GTGTGAGTGT'' ''chr1'' 100 0 0 4 4 ''+'' =
       Inr [\<lparr>chrom = ''chr1'', win_start = 100, win_end = 104, score = 4\<rparr>,
            \<lparr>chrom = ''chr1'', win_start = 104, win_end = 108, score = 0\<rparr>,
            \<lparr>chrom = ''chr1'', win_start = 108, win_end = 110, score = 0\<rparr>]"
    by code_simp
  have s: "(0::int) < 4" "(4::int) \<le> 2 ^ 20" "\<bar>int (length ''GTGTGAGTGT'') - 4\<bar> < 2 ^ 32"
    by simp_all
  from calc_score_over_windows_count[OF s, of "''chr1''" 100 0 0 "''+''"] e
  have "int (length [\<lparr>chrom = ''chr1'', win_start = 100, win_end = 104, score = 4::real\<rparr>,
            \<lparr>chrom = ''chr1'', win_start = 104, win_end = 108, score = 0\<rparr>,
            \<lparr>chrom = ''chr1'', win_start = 108, win_end = 110, score = 0\<rparr>])
        = max 0 \<lceil>real_of_int (int (length ''GTGTGAGTGT'') - 4) / real_of_int 4 + 1\<rceil>"
    by auto
  then have "max 0 \<lceil>real_of_int (int (length ''GTGTGAGTGT'') - 4) / real_of_int 4 + 1\<rceil> = 3"
    by simp
  with e show ?thesis by simp
qed

text \<open>
  Claim C2 as stated fails twice. For \<open>GT\<close> with window 4 and step 1 the formula
  \<open>ceil((L-W)/S + 1)\<close> is \<open>-1\<close> and no window is produced. For a sequence of length 10
  with window 1 and step 7 the third window starts at offset 14, is empty, and ends at
  \<open>start + 14\<close>, beyond \<open>start + 10\<close>.
\<close>

theorem calc_score_over_windows_counterexample:
  "calc_score_over_windows ''GT'' ''chr1'' 100 0 0 4 1 ''+'' = Inr []
   \<and> \<lceil>real_of_int (int (length ''GT'') - 4) / real_of_int 1 + 1\<rceil> = - 1
   \<and> calc_score_over_windows ''GTGTGAGTGT'' ''chr1'' 100 0 0 1 7 ''+'' =
       Inr [\<lparr>chrom = ''chr1'', win_start = 100, win_end = 101, score = 0\<rparr>,
            \<lparr>chrom = ''chr1'', win_start = 107, win_end = 108, score = 0\<rparr>,
            \<lparr>chrom = ''chr1'', win_start = 114, win_end = 114, score = 0\<rparr>]
   \<and> \<not> (114 \<le> 100 + int (length ''GTGTGAGTGT''))"
proof -
  have a: "calc_score_over_windows ''GT'' ''chr1'' 100 0 0 4 1 ''+'' = Inr []"
    by code_simp
  have b: "\<lceil>real_of_int (int (length ''GT'') - 4) / real_of_int 1 + 1\<rceil> = - 1"
    by (simp add: ceiling_minus)
  have c: "calc_score_over_windows ''GTGTGAGTGT'' ''chr1'' 100 0 0 1 7 ''+'' =
       Inr [\<lparr>chrom = ''chr1'', win_start = 100, win_end = 101, score = 0\<rparr>,
            \<lparr>chrom = ''chr1'', win_start = 107, win_end = 108, score = 0\<rparr>,
            \<lparr>chrom = ''chr1'', win_start = 114, win_end = 114, score = 0\<rparr>]"
    by code_simp
  from a b c show ?thesis by simp
qed

text \<open>
  Claim C3, as amended. In max mode with step \<open>0 < S \<le> 2^20\<close>, for every sequence whose
  length \<open>L\<close> is strictly smaller than the window size \<open>W\<close> with \<open>2 (W - L) < S\<close>, the
  single truncated window (the whole sequence) is scored and that window's score is
  returned.
\<close>

theorem calc_max_score_short_sequence:
  assumes "int (length seq) < window" "0 < step" "step \<le> 2 ^ 20"
    and "2 * (window - int (length seq)) < step"
  shows "\<exists>v. window_score seq p tp = Inr v
     \<and> calc_max_score_over_windows seq p tp window step = Inr (Some v)"
proof -
  let ?d = "window - int (length seq)"
  from window_score_total obtain v where v: "window_score seq p tp = Inr v" by blast
  have d0: "0 < ?d" using assms(1) by simp
  from max_num_windows_one[OF assms(2,3) d0 assms(4)] obtain q where
    q: "py_int_truediv (- ?d) step = Inr q" "py_round (py_float_add q 1) = 1" by blast
  from q(1) have e: "py_int_truediv (int (length seq) - window) step = Inr q"
    by (simp only: minus_diff_eq)
  have "calc_max_score_over_windows seq p tp window step
      = max_loop seq p tp window (py_range 0 (1 * step) step) None"
    by (simp add: calc_max_score_over_windows_def e q(2))
  also have "\<dots> = max_loop seq p tp window [0] None"
    using py_range_pos[OF assms(2), of 1] by simp
  also have "\<dots> = Inr (Some v)"
    using v py_slice_whole[OF assms(1)] by simp
  finally show ?thesis using v by simp
qed

theorem calc_max_score_short_sequence_witness:
  "int (length ''GTGTG'') < 6 \<and> (0::int) < 3 \<and> (3::int) \<le> 2 ^ 20
   \<and> 2 * (6 - int (length ''GTGTG'')) < 3
   \<and> window_score ''GTGTG'' 0 0 = Inr 5
   \<and> calc_max_score_over_windows ''GTGTG'' 0 0 6 3 = Inr (Some 5)"
proof -
  have l: "int (length ''GTGTG'') < 6" and s: "(0::int) < 3" "(3::int) \<le> 2 ^ 20"
    and d: "2 * (6 - int (length ''GTGTG'')) < 3" by simp_all
  have e: "window_score ''GTGTG'' 0 0 = Inr 5" by code_simp
  from calc_max_score_short_sequence[OF l s d, of 0 0] e l s d show ?thesis by auto
qed

text \<open>
  Claim C3 as stated fails: for \<open>GGTG\<close> with window 5 and step 1 the truncated window
  \<open>seq[0:5]\<close> has score 4, but max mode scores no window and returns NaN.
\<close>

theorem calc_max_score_short_sequence_counterexample:
  "int (length ''GGTG'') < 5
   \<and> window_score (py_slice ''GGTG'' 0 (0 + 5)) 0 0 = Inr 4
   \<and> calc_max_score_over_windows ''GGTG'' 0 0 5 1 = Inr None"
proof -
  have a: "window_score (py_slice ''GGTG'' 0 (0 + 5)) 0 0 = Inr 4" by code_simp
  have b: "calc_max_score_over_windows ''GGTG'' 0 0 5 1 = Inr None" by code_simp
  from a b show ?thesis by simp
qed




end
